theory Spec2Isabelle
  imports Main "HOL-Library.Word"
begin

section \<open>The record context (type Context and its methods)\<close>

text \<open>
  Go strings are byte sequences: a \<^typ>\<open>string\<close> is a list of 8-bit characters.
  A Go \<open>int\<close> index is compared with a length only, never added to, so it is an
  \<^typ>\<open>int\<close>; \<open>NR\<close> is an \<open>int64\<close> that the engine increments, so it is a
  64-bit word read as two's complement. \<open>Variables\<close> is a Go map that may be \<open>nil\<close>:
  \<open>None\<close> is the nil map. The type \<open>'v\<close> stands for Go's \<open>any\<close>.
\<close>

record 'v Context =
  Fields :: "string list"
  NR :: "64 word"
  NF :: int
  FS :: string
  OFS :: string
  Variables :: "(string \<rightharpoonup> 'v) option"
  RS :: string

text \<open>A run-time panic of Go: indexing a slice out of its range.\<close>

datatype panic = IndexOutOfRange

text \<open>\<open>xs[i]\<close> read and \<open>xs[i] = v\<close> written, with Go's bounds check.\<close>

definition slice_get :: "'a list \<Rightarrow> int \<Rightarrow> panic + 'a" where
  "slice_get xs i =
     (if 0 \<le> i \<and> i < int (length xs) then Inr (xs ! nat i) else Inl IndexOutOfRange)"

definition slice_set :: "'a list \<Rightarrow> int \<Rightarrow> 'a \<Rightarrow> panic + 'a list" where
  "slice_set xs i v =
     (if 0 \<le> i \<and> i < int (length xs) then Inr (xs[nat i := v]) else Inl IndexOutOfRange)"

text \<open>
  \<^verbatim>\<open>func (c *Context) Field(index int) string {
      if index < 0 || index >= len(c.Fields) { return "" }
      return c.Fields[index]
  }\<close>
\<close>

definition Context_Field :: "'v Context \<Rightarrow> int \<Rightarrow> panic + string" where
  "Context_Field c index =
     (if index < 0 \<or> index \<ge> int (length (Fields c)) then Inr []
      else slice_get (Fields c) index)"

text \<open>
  The loop of SetField, \<^verbatim>\<open>for len(c.Fields) <= index { c.Fields = append(c.Fields, "") }\<close>.
\<close>

function expandFields :: "string list \<Rightarrow> int \<Rightarrow> string list" where
  "expandFields fs index =
     (if int (length fs) \<le> index then expandFields (fs @ [[]]) index else fs)"
  by pat_completeness auto
termination
  by (relation "measure (\<lambda>(fs, index). nat (index + 1 - int (length fs)))") auto

declare expandFields.simps [simp del]

text \<open>
  \<^verbatim>\<open>func (c *Context) SetField(index int, value string) {
      if index < 0 { return }
      for len(c.Fields) <= index { c.Fields = append(c.Fields, "") }
      c.Fields[index] = value
      c.NF = len(c.Fields) - 1 // Don't count $0
  }\<close>
\<close>

definition Context_SetField :: "'v Context \<Rightarrow> int \<Rightarrow> string \<Rightarrow> panic + 'v Context" where
  "Context_SetField c index v =
     (if index < 0 then Inr c
      else
        let fs = expandFields (Fields c) index in
        case slice_set fs index v of
          Inl p \<Rightarrow> Inl p
        | Inr fs' \<Rightarrow> Inr (c\<lparr>Fields := fs', NF := int (length fs') - 1\<rparr>))"

text \<open>
  \<^verbatim>\<open>func (c *Context) Var(name string) any {
      if c.Variables == nil { return nil }
      return c.Variables[name]
  }\<close>
  The result \<open>None\<close> is Go's \<open>nil\<close>.
\<close>

definition Context_Var :: "'v Context \<Rightarrow> string \<Rightarrow> 'v option" where
  "Context_Var c name = (case Variables c of None \<Rightarrow> None | Some m \<Rightarrow> m name)"

text \<open>
  \<^verbatim>\<open>func (c *Context) SetVar(name string, value any) {
      if c.Variables == nil { c.Variables = make(map[string]any) }
      c.Variables[name] = value
  }\<close>
\<close>

definition Context_SetVar :: "'v Context \<Rightarrow> string \<Rightarrow> 'v \<Rightarrow> 'v Context" where
  "Context_SetVar c name v =
     (let m = (case Variables c of None \<Rightarrow> Map.empty | Some m \<Rightarrow> m)
      in c\<lparr>Variables := Some (m(name \<mapsto> v))\<rparr>)"

section \<open>The Go library functions the engine calls\<close>

text \<open>
  The engine splits a record with \<open>strings.Fields\<close> and \<open>strings.Split\<close>. Both belong to
  Go's standard library; they are modelled here as the algorithms the library runs, on
  bytes, with UTF-8 decoding where the library decodes.
\<close>

subsection \<open>Package \<open>unicode/utf8\<close> and \<open>unicode\<close>\<close>

definition byte :: "char \<Rightarrow> nat" where
  "byte c = of_char c"

definition utf8_RuneError :: nat where
  "utf8_RuneError = 0xFFFD"

text \<open>
  The table \<open>first\<close> joined with \<open>acceptRanges\<close>: for a leading byte of a multi-byte
  sequence, the length of the sequence and the range accepted for the second byte.
  \<open>None\<close> is an invalid leading byte.
\<close>

definition utf8_first :: "nat \<Rightarrow> (nat \<times> nat \<times> nat) option" where
  "utf8_first s0 =
     (if 0xC2 \<le> s0 \<and> s0 \<le> 0xDF then Some (2, 0x80, 0xBF)
      else if s0 = 0xE0 then Some (3, 0xA0, 0xBF)
      else if 0xE1 \<le> s0 \<and> s0 \<le> 0xEC then Some (3, 0x80, 0xBF)
      else if s0 = 0xED then Some (3, 0x80, 0x9F)
      else if 0xEE \<le> s0 \<and> s0 \<le> 0xEF then Some (3, 0x80, 0xBF)
      else if s0 = 0xF0 then Some (4, 0x90, 0xBF)
      else if 0xF1 \<le> s0 \<and> s0 \<le> 0xF3 then Some (4, 0x80, 0xBF)
      else if s0 = 0xF4 then Some (4, 0x80, 0x8F)
      else None)"

text \<open>
  \<open>utf8.DecodeRuneInString\<close>: the first rune of \<open>s\<close> and its width in bytes; an invalid
  encoding is \<open>RuneError\<close> of width 1, the empty string \<open>RuneError\<close> of width 0.
\<close>

definition utf8_DecodeRuneInString :: "string \<Rightarrow> nat \<times> nat" where
  "utf8_DecodeRuneInString s =
     (let n = length s in
      if n < 1 then (utf8_RuneError, 0) else
      let s0 = byte (s ! 0) in
      if s0 < 0x80 then (s0, 1) else
      case utf8_first s0 of
        None \<Rightarrow> (utf8_RuneError, 1)
      | Some (sz, lo, hi) \<Rightarrow>
          if n < sz then (utf8_RuneError, 1) else
          let s1 = byte (s ! 1) in
          if s1 < lo \<or> hi < s1 then (utf8_RuneError, 1) else
          if sz \<le> 2 then ((s0 mod 32) * 64 + s1 mod 64, 2) else
          let s2 = byte (s ! 2) in
          if s2 < 0x80 \<or> 0xBF < s2 then (utf8_RuneError, 1) else
          if sz \<le> 3 then ((s0 mod 16) * 4096 + (s1 mod 64) * 64 + s2 mod 64, 3) else
          let s3 = byte (s ! 3) in
          if s3 < 0x80 \<or> 0xBF < s3 then (utf8_RuneError, 1) else
          ((s0 mod 8) * 262144 + (s1 mod 64) * 4096 + (s2 mod 64) * 64 + s3 mod 64, 4))"

lemma utf8_first_size: "utf8_first s0 = Some (sz, lo, hi) \<Longrightarrow> 2 \<le> sz \<and> sz \<le> 4"
  by (auto simp: utf8_first_def split: if_splits)

lemma utf8_DecodeRuneInString_size:
  assumes "s \<noteq> []"
  shows "1 \<le> snd (utf8_DecodeRuneInString s) \<and> snd (utf8_DecodeRuneInString s) \<le> length s"
proof (cases "utf8_first (byte (s ! 0))")
  case None
  with assms show ?thesis
    by (cases s) (simp_all add: utf8_DecodeRuneInString_def Let_def)
next
  case (Some t)
  obtain sz lo hi where t: "t = (sz, lo, hi)" by (cases t)
  from Some t have "2 \<le> sz \<and> sz \<le> 4" by (auto dest: utf8_first_size)
  with assms Some t show ?thesis
    by (cases s) (simp_all add: utf8_DecodeRuneInString_def Let_def)
qed

text \<open>
  What \<^verbatim>\<open>for i, rune := range s\<close> iterates over: the runes of \<open>s\<close> in order, each with the
  bytes it was decoded from.
\<close>

function runes :: "string \<Rightarrow> (nat \<times> string) list" where
  "runes s =
     (if s = [] then []
      else let (r, size) = utf8_DecodeRuneInString s in (r, take size s) # runes (drop size s))"
  by pat_completeness auto
termination
proof (relation "measure length")
  show "wf (measure length)" by simp
next
  fix s :: string and x :: "nat \<times> nat" and r size
  assume "s \<noteq> []" "x = utf8_DecodeRuneInString s" "(r, size) = x"
  then have "1 \<le> size" using utf8_DecodeRuneInString_size [of s] by (metis snd_conv)
  with \<open>s \<noteq> []\<close> show "(drop size s, s) \<in> measure length" by simp
qed

declare runes.simps [simp del]

text \<open>\<open>unicode.IsSpace\<close>: the Latin-1 cases, then the table \<open>White_Space\<close>.\<close>

definition unicode_IsSpace :: "nat \<Rightarrow> bool" where
  "unicode_IsSpace r =
     (if r \<le> 0xFF then r = 0x09 \<or> r = 0x0A \<or> r = 0x0B \<or> r = 0x0C \<or> r = 0x0D \<or> r = 0x20 \<or>
                         r = 0x85 \<or> r = 0xA0
      else r = 0x1680 \<or> (0x2000 \<le> r \<and> r \<le> 0x200A) \<or> r = 0x2028 \<or> r = 0x2029 \<or>
           r = 0x202F \<or> r = 0x205F \<or> r = 0x3000)"

subsection \<open>\<open>strings.Fields\<close>\<close>

text \<open>The table \<open>asciiSpace\<close> of package \<open>strings\<close>: tab, newline, VT, FF, CR and space.\<close>

definition asciiSpace :: "char \<Rightarrow> bool" where
  "asciiSpace c = (byte c = 0x09 \<or> byte c = 0x0A \<or> byte c = 0x0B \<or> byte c = 0x0C \<or>
                   byte c = 0x0D \<or> byte c = 0x20)"

text \<open>
  The loop of \<open>strings.FieldsFunc\<close> over the runes of the string. The library keeps the
  index \<open>start\<close> of the field being read, negative when no field is open; here
  \<open>Some t\<close> holds the bytes \<open>s[start:end]\<close> read so far and \<open>None\<close> is a negative \<open>start\<close>.
  \<^verbatim>\<open>
  for end, rune := range s {
      if f(rune) {
          if start >= 0 { spans = append(spans, span{start, end}); start = ^start }
      } else {
          if start < 0 { start = end }
      }
  }
  if start >= 0 { spans = append(spans, span{start, len(s)}) }
  \<close>
\<close>

fun fieldsFuncLoop :: "(nat \<Rightarrow> bool) \<Rightarrow> (nat \<times> string) list \<Rightarrow> string option \<Rightarrow> string list \<Rightarrow> string list" where
  "fieldsFuncLoop f [] start spans =
     (case start of Some t \<Rightarrow> spans @ [t] | None \<Rightarrow> spans)"
| "fieldsFuncLoop f ((rune, bs) # rest) start spans =
     (if f rune then
        (case start of
           Some t \<Rightarrow> fieldsFuncLoop f rest None (spans @ [t])
         | None \<Rightarrow> fieldsFuncLoop f rest None spans)
      else
        (case start of
           None \<Rightarrow> fieldsFuncLoop f rest (Some bs) spans
         | Some t \<Rightarrow> fieldsFuncLoop f rest (Some (t @ bs)) spans))"

definition strings_FieldsFunc :: "string \<Rightarrow> (nat \<Rightarrow> bool) \<Rightarrow> string list" where
  "strings_FieldsFunc s f = fieldsFuncLoop f (runes s) None []"

text \<open>
  The ASCII path of \<open>strings.Fields\<close>. \<open>skipSpaces\<close> is the inner loop
  \<^verbatim>\<open>for i < len(s) && asciiSpace[s[i]] != 0 { i++ }\<close>; in \<open>asciiFieldsLoop\<close> the first
  argument is \<open>s[i:]\<close> and the second \<open>s[fieldStart:i]\<close>.
  \<^verbatim>\<open>
  for i < len(s) {
      if asciiSpace[s[i]] == 0 { i++; continue }
      a[na] = s[fieldStart:i]; na++; i++
      for i < len(s) && asciiSpace[s[i]] != 0 { i++ }
      fieldStart = i
  }
  if fieldStart < len(s) { a[na] = s[fieldStart:] }
  \<close>
\<close>

fun skipSpaces :: "string \<Rightarrow> string" where
  "skipSpaces [] = []"
| "skipSpaces (c # cs) = (if asciiSpace c then skipSpaces cs else c # cs)"

lemma length_skipSpaces: "length (skipSpaces cs) \<le> length cs"
  by (induction cs) auto

function asciiFieldsLoop :: "string \<Rightarrow> string \<Rightarrow> string list \<Rightarrow> string list" where
  "asciiFieldsLoop [] field a = (if field \<noteq> [] then a @ [field] else a)"
| "asciiFieldsLoop (c # cs) field a =
     (if \<not> asciiSpace c then asciiFieldsLoop cs (field @ [c]) a
      else asciiFieldsLoop (skipSpaces cs) [] (a @ [field]))"
  by pat_completeness auto
termination
  by (relation "measure (\<lambda>(s, field, a). length s)")
     (auto simp: length_skipSpaces less_Suc_eq_le)

text \<open>
  \<open>strings.Fields\<close>: a string with a byte of \<open>0x80\<close> or more goes to
  \<open>FieldsFunc(s, unicode.IsSpace)\<close>, an ASCII string through the loop above.
\<close>

definition strings_Fields :: "string \<Rightarrow> string list" where
  "strings_Fields s =
     (if \<exists>c \<in> set s. 0x80 \<le> byte c then strings_FieldsFunc s unicode_IsSpace
      else asciiFieldsLoop (skipSpaces s) [] [])"

subsection \<open>\<open>strings.Split\<close> and \<open>strings.Join\<close>\<close>

text \<open>\<open>strings.Index\<close>: the index of the first instance of \<open>substr\<close> in \<open>s\<close>, or \<open>-1\<close>.\<close>

fun strings_Index :: "string \<Rightarrow> string \<Rightarrow> int" where
  "strings_Index [] substr = (if substr = [] then 0 else - 1)"
| "strings_Index (c # cs) substr =
     (if take (length substr) (c # cs) = substr then 0
      else let i = strings_Index cs substr in if i < 0 then - 1 else i + 1)"

lemma strings_Index_bounds:
  "strings_Index s substr = - 1 \<or>
   (0 \<le> strings_Index s substr \<and> nat (strings_Index s substr) + length substr \<le> length s)"
proof (induction s)
  case Nil
  then show ?case by simp
next
  case (Cons c cs)
  show ?case
  proof (cases "take (length substr) (c # cs) = substr")
    case True
    then have "length (take (length substr) (c # cs)) = length substr"
      by simp
    then have "length substr \<le> length (c # cs)"
      by (simp del: take_Suc_Cons)
    with True show ?thesis by simp
  next
    case False
    with Cons show ?thesis by (auto simp: Let_def)
  qed
qed

text \<open>
  \<open>strings.Count\<close>: a one-byte \<open>substr\<close> is counted byte by byte, a longer one by
  \<^verbatim>\<open>for { i := Index(s, substr); if i == -1 { return n }; n++; s = s[i+len(substr):] }\<close>.
\<close>

function strings_Count_loop :: "string \<Rightarrow> string \<Rightarrow> nat \<Rightarrow> nat" where
  "strings_Count_loop s substr n =
     (if substr = [] then n
      else let i = strings_Index s substr in
        if i = - 1 then n
        else strings_Count_loop (drop (nat i + length substr) s) substr (n + 1))"
  by pat_completeness auto
termination
proof (relation "measure (\<lambda>(s, substr, n). length s)")
  show "wf (measure (\<lambda>(s, substr, n). length s))" by simp
next
  fix s substr :: string and n :: nat and i :: int
  assume a: "substr \<noteq> []" "i = strings_Index s substr" "i \<noteq> - 1"
  with strings_Index_bounds [of s substr]
  have "nat i + length substr \<le> length s" by simp
  moreover from a have "0 < length substr" by simp
  ultimately have "length s - (nat i + length substr) < length s" by arith
  then show "((drop (nat i + length substr) s, substr, n + 1), (s, substr, n))
      \<in> measure (\<lambda>(s, substr, n). length s)"
    by simp
qed

declare strings_Count_loop.simps [simp del]

definition strings_Count :: "string \<Rightarrow> string \<Rightarrow> int" where
  "strings_Count s substr =
     (if length substr = 0 then int (length (runes s)) + 1
      else if length substr = 1 then int (count_list s (substr ! 0))
      else int (strings_Count_loop s substr 0))"

text \<open>\<open>explode\<close>: \<open>s\<close> cut into its UTF-8 sequences, at most \<open>n\<close> pieces (all when \<open>n < 0\<close>).\<close>

definition explode :: "string \<Rightarrow> int \<Rightarrow> string list" where
  "explode s n =
     (let l = int (length (runes s));
          n = (if n < 0 \<or> n > l then l else n)
      in if n > 0
         then map snd (take (nat (n - 1)) (runes s)) @ [concat (map snd (drop (nat (n - 1)) (runes s)))]
         else [])"

text \<open>
  The loop of \<open>genSplit\<close> (with \<open>sepSave = 0\<close>, as \<open>Split\<close> calls it; \<open>n\<close> is already
  decremented):
  \<^verbatim>\<open>
  for i < n {
      m := Index(s, sep)
      if m < 0 { break }
      a[i] = s[:m+sepSave]
      s = s[m+len(sep):]
      i++
  }
  a[i] = s
  return a[:i+1]
  \<close>
\<close>

function genSplitLoop :: "string \<Rightarrow> string \<Rightarrow> int \<Rightarrow> int \<Rightarrow> string list \<Rightarrow> string list" where
  "genSplitLoop s sep i n a =
     (if i < n then
        (let m = strings_Index s sep in
         if m < 0 then a @ [s]
         else genSplitLoop (drop (nat m + length sep) s) sep (i + 1) n (a @ [take (nat m) s]))
      else a @ [s])"
  by pat_completeness auto
termination
  by (relation "measure (\<lambda>(s, sep, i, n, a). nat (n - i))") auto

declare genSplitLoop.simps [simp del]

definition genSplit :: "string \<Rightarrow> string \<Rightarrow> int \<Rightarrow> string list" where
  "genSplit s sep n =
     (if n = 0 then []
      else if sep = [] then explode s n
      else
        let n = (if n < 0 then strings_Count s sep + 1 else n);
            n = (if n > int (length s) + 1 then int (length s) + 1 else n)
        in genSplitLoop s sep 0 (n - 1) [])"

definition strings_Split :: "string \<Rightarrow> string \<Rightarrow> string list" where
  "strings_Split s sep = genSplit s sep (- 1)"

text \<open>\<open>strings.Join\<close>: the elements with \<open>sep\<close> between each two.\<close>

fun strings_Join :: "string list \<Rightarrow> string \<Rightarrow> string" where
  "strings_Join [] sep = []"
| "strings_Join (e # es) sep = e @ concat (map (\<lambda>s. sep @ s) es)"

text \<open>
  \<^verbatim>\<open>func (c *Context) Print(values ...any) string {
      parts := make([]string, len(values))
      for i, v := range values { parts[i] = fmt.Sprint(v) }
      return strings.Join(parts, c.OFS)
  }\<close>
  \<open>fmt.Sprint\<close> is a parameter.
\<close>

definition Context_Print :: "('v \<Rightarrow> string) \<Rightarrow> 'v Context \<Rightarrow> 'v list \<Rightarrow> string" where
  "Context_Print Sprint c values = strings_Join (map Sprint values) (OFS c)"

section \<open>The execution engine (\<open>Awk\<close> and \<open>command.Executor\<close>)\<close>

text \<open>
  A Go \<open>error\<close>: \<open>New msg\<close> is \<open>errors.New(msg)\<close> (or any error a hook or the input
  returns), \<open>Wrapped prefix e\<close> is \<^verbatim>\<open>fmt.Errorf(prefix + "%w", e)\<close>.
\<close>

datatype error = New string | Wrapped string error

text \<open>
  The interface \<open>Program\<close>. A hook receives the pointer to the one context of the run and
  may write any exported field of it, and the program value may carry state of its own
  (\<open>'s\<close>): a hook takes both and returns both with its results.
\<close>

record ('s, 'v) Program =
  Begin :: "'s \<Rightarrow> 'v Context \<Rightarrow> 's \<times> 'v Context \<times> error option"
  Condition :: "'s \<Rightarrow> 'v Context \<Rightarrow> 's \<times> 'v Context \<times> bool"
  Action :: "'s \<Rightarrow> 'v Context \<Rightarrow> 's \<times> 'v Context \<times> string \<times> bool"
  End :: "'s \<Rightarrow> 'v Context \<Rightarrow> 's \<times> 'v Context \<times> string \<times> error option"

text \<open>
  \<^verbatim>\<open>func (SimpleProgram) Begin(ctx *Context) error           { return nil }
  func (SimpleProgram) Condition(ctx *Context) bool        { return true }
  func (SimpleProgram) Action(ctx *Context) (string, bool) { return ctx.Field(0), true }
  func (SimpleProgram) End(ctx *Context) (string, error)   { return "", nil }\<close>
\<close>

definition SimpleProgram :: "('s, 'v) Program" where
  "SimpleProgram =
     \<lparr>Begin = (\<lambda>s ctx. (s, ctx, None)),
      Condition = (\<lambda>s ctx. (s, ctx, True)),
      Action = (\<lambda>s ctx. (s, ctx, (case Context_Field ctx 0 of Inr x \<Rightarrow> x | Inl p \<Rightarrow> []), True)),
      End = (\<lambda>s ctx. (s, ctx, [], None))\<rparr>"

text \<open>
  The struct \<open>flags\<close> as \<open>gloo.Initialize\<close> returns it from the parameters; its field
  \<open>Variables\<close> is \<open>flags_Variables\<close> here, the name being taken by the context.
\<close>

record 'v flags =
  FieldSeparator :: string
  OutputFieldSeparator :: string
  flags_Variables :: "(string \<rightharpoonup> 'v) option"

record ('s, 'v) command =
  program :: "('s, 'v) Program"
  Flags :: "'v flags"

text \<open>
  \<^verbatim>\<open>func Awk(program Program, parameters ...any) gloo.Command {
      cmd := command{program: program, inputs: gloo.Initialize[gloo.File, flags](parameters...)}
      if cmd.inputs.Flags.FieldSeparator == "" { cmd.inputs.Flags.FieldSeparator = " " }
      if cmd.inputs.Flags.OutputFieldSeparator == "" { cmd.inputs.Flags.OutputFieldSeparator = " " }
      return cmd
  }\<close>
\<close>

definition Awk :: "('s, 'v) Program \<Rightarrow> 'v flags \<Rightarrow> ('s, 'v) command" where
  "Awk prog parameters =
     (let cmd = \<lparr>program = prog, Flags = parameters\<rparr>;
          cmd = (if FieldSeparator (Flags cmd) = []
                 then cmd\<lparr>Flags := (Flags cmd)\<lparr>FieldSeparator := '' ''\<rparr>\<rparr> else cmd);
          cmd = (if OutputFieldSeparator (Flags cmd) = []
                 then cmd\<lparr>Flags := (Flags cmd)\<lparr>OutputFieldSeparator := '' ''\<rparr>\<rparr> else cmd)
      in cmd)"

text \<open>
  What \<open>bufio.NewScanner(stdin)\<close> gives the loop: the texts of the calls of \<open>Scan\<close> that
  return true, in order, and the value of \<open>Err()\<close> once \<open>Scan\<close> has returned false.
\<close>

record Scanner =
  scanned :: "string list"
  scanErr :: "error option"

text \<open>
  One invocation of a hook, kept in a log that the Go code does not have: the context the
  hook was given, the context as it was when the hook returned, and what the hook returned.
\<close>

datatype 'v hook_call =
    BeginCall (seen: "'v Context") (returned: "'v Context") "error option"
  | ConditionCall (seen: "'v Context") (returned: "'v Context") bool
  | ActionCall (seen: "'v Context") (returned: "'v Context") string bool
  | EndCall (seen: "'v Context") (returned: "'v Context") string "error option"

text \<open>
  The state of a run: the context \<open>awkCtx\<close>, the program's own state, the bytes written
  to \<open>stdout\<close>, and the log of hook invocations.
\<close>

record ('s, 'v) run =
  awkCtx :: "'v Context"
  progState :: 's
  stdout :: string
  calls :: "'v hook_call list"

text \<open>\<open>fmt.Fprintln(stdout, output)\<close> writes the string and a newline.\<close>

definition Fprintln :: "string \<Rightarrow> string" where
  "Fprintln output = output @ [CHR 0x0A]"

text \<open>
  Lines 136 to 147 of the executor: the context a run starts with.
  \<^verbatim>\<open>
  awkCtx := &Context{
      NR: 0, FS: string(c.inputs.Flags.FieldSeparator), OFS: string(c.inputs.Flags.OutputFieldSeparator),
      RS: "\n", Variables: make(map[string]any),
  }
  for k, v := range c.inputs.Flags.Variables { awkCtx.Variables[k] = v }
  \<close>
\<close>

definition initialContext :: "('s, 'v) command \<Rightarrow> 'v Context" where
  "initialContext c =
     \<lparr>Fields = [], NR = 0, NF = 0, FS = FieldSeparator (Flags c),
      OFS = OutputFieldSeparator (Flags c),
      Variables = Some (Map.empty ++ (case flags_Variables (Flags c) of None \<Rightarrow> Map.empty | Some m \<Rightarrow> m)),
      RS = [CHR 0x0A]\<rparr>"

text \<open>
  Lines 164 to 176: the fields of a line under the separator \<open>awkCtx.FS\<close>.
  \<^verbatim>\<open>
  if awkCtx.FS == " " {
      fields = strings.Fields(line)
  } else {
      if line == "" { fields = []string{} } else { fields = strings.Split(line, awkCtx.FS) }
  }
  \<close>
\<close>

definition splitFields :: "string \<Rightarrow> string \<Rightarrow> string list" where
  "splitFields fs line =
     (if fs = '' '' then strings_Fields line
      else if line = [] then []
      else strings_Split line fs)"

text \<open>
  Lines 157 to 178: what the engine does to the context for one line.
  \<^verbatim>\<open>
  awkCtx.NR++
  awkCtx.Fields = make([]string, 0, 16)
  awkCtx.Fields = append(awkCtx.Fields, line) // $0
  ... fields ...
  awkCtx.Fields = append(awkCtx.Fields, fields...)
  awkCtx.NF = len(fields)
  \<close>
\<close>

definition recordUpdate :: "string \<Rightarrow> 'v Context \<Rightarrow> 'v Context" where
  "recordUpdate line ctx =
     (let ctx = ctx\<lparr>NR := NR ctx + 1\<rparr>;
          ctx = ctx\<lparr>Fields := []\<rparr>;
          ctx = ctx\<lparr>Fields := Fields ctx @ [line]\<rparr>;
          fields = splitFields (FS ctx) line;
          ctx = ctx\<lparr>Fields := Fields ctx @ fields\<rparr>
      in ctx\<lparr>NF := int (length fields)\<rparr>)"

text \<open>
  The body of the loop \<^verbatim>\<open>for scanner.Scan() { ... }\<close> for one line.
  \<^verbatim>\<open>
  if !c.program.Condition(awkCtx) { continue }
  output, emit := c.program.Action(awkCtx)
  if emit { fmt.Fprintln(stdout, output) }
  \<close>
\<close>

definition loopBody :: "('s, 'v) Program \<Rightarrow> string \<Rightarrow> ('s, 'v) run \<Rightarrow> ('s, 'v) run" where
  "loopBody p line st =
     (let ctx = recordUpdate line (awkCtx st) in
      case Condition p (progState st) ctx of (s1, ctx1, ok) \<Rightarrow>
        let st1 = st\<lparr>awkCtx := ctx1, progState := s1,
                      calls := calls st @ [ConditionCall ctx ctx1 ok]\<rparr>
        in if \<not> ok then st1
           else
             case Action p s1 ctx1 of (s2, ctx2, output, emit) \<Rightarrow>
               let st2 = st1\<lparr>awkCtx := ctx2, progState := s2,
                              calls := calls st1 @ [ActionCall ctx1 ctx2 output emit]\<rparr>
               in if emit then st2\<lparr>stdout := stdout st2 @ Fprintln output\<rparr> else st2)"

fun processLines :: "('s, 'v) Program \<Rightarrow> string list \<Rightarrow> ('s, 'v) run \<Rightarrow> ('s, 'v) run" where
  "processLines p [] st = st"
| "processLines p (line # rest) st = processLines p rest (loopBody p line st)"

text \<open>The run up to and including the call of \<open>Begin\<close> (lines 136 to 150).\<close>

definition beginPhase :: "('s, 'v) command \<Rightarrow> 's \<Rightarrow> ('s, 'v) run \<times> error option" where
  "beginPhase c s0 =
     (let ctx = initialContext c in
      case Begin (program c) s0 ctx of (s1, ctx1, err) \<Rightarrow>
        (\<lparr>awkCtx = ctx1, progState = s1, stdout = [], calls = [BeginCall ctx ctx1 err]\<rparr>, err))"

text \<open>The call of \<open>End\<close> and what follows it (lines 197 to 205).\<close>

definition endPhase :: "('s, 'v) Program \<Rightarrow> ('s, 'v) run \<Rightarrow> ('s, 'v) run \<times> error option" where
  "endPhase p st =
     (case End p (progState st) (awkCtx st) of (s2, ctx2, endOutput, err) \<Rightarrow>
        let st2 = st\<lparr>awkCtx := ctx2, progState := s2,
                      calls := calls st @ [EndCall (awkCtx st) ctx2 endOutput err]\<rparr>
        in (case err of
              Some e \<Rightarrow> (st2, Some (Wrapped ''END: '' e))
            | None \<Rightarrow>
                (if endOutput \<noteq> [] then st2\<lparr>stdout := stdout st2 @ Fprintln endOutput\<rparr> else st2,
                 None)))"

text \<open>
  The function that \<open>Executor\<close> wraps: the final state of the run and the error returned.
  The second argument is the state the program value starts with.
  \<^verbatim>\<open>
  if err := c.program.Begin(awkCtx); err != nil { return fmt.Errorf("BEGIN: %w", err) }
  scanner := bufio.NewScanner(stdin)
  for scanner.Scan() { ... }
  if err := scanner.Err(); err != nil { return err }
  endOutput, err := c.program.End(awkCtx)
  if err != nil { return fmt.Errorf("END: %w", err) }
  if endOutput != "" { fmt.Fprintln(stdout, endOutput) }
  return nil
  \<close>
\<close>

definition Executor :: "('s, 'v) command \<Rightarrow> 's \<Rightarrow> Scanner \<Rightarrow> ('s, 'v) run \<times> error option" where
  "Executor c s0 stdin =
     (case beginPhase c s0 of
        (st, Some e) \<Rightarrow> (st, Some (Wrapped ''BEGIN: '' e))
      | (st, None) \<Rightarrow>
          (let st = processLines (program c) (scanned stdin) st in
           (case scanErr stdin of
              Some e \<Rightarrow> (st, Some e)
            | None \<Rightarrow> endPhase (program c) st)))"

subsection \<open>Programs used as concrete inputs\<close>

text \<open>
  Three programs that embed \<open>SimpleProgram\<close> and override one hook each. They have no
  state of their own and use no variables.
  \<^verbatim>\<open>func (p) Begin(ctx *Context) error { ctx.NR = 5; return nil }\<close>
\<close>

definition example_Begin_assigns_NR :: "(unit, unit) Program" where
  "example_Begin_assigns_NR = SimpleProgram\<lparr>Begin := (\<lambda>s ctx. (s, ctx\<lparr>NR := 5\<rparr>, None))\<rparr>"

text \<open>\<^verbatim>\<open>func (p) Condition(ctx *Context) bool { ctx.NF = 7; return true }\<close>\<close>

definition example_Condition_assigns_NF :: "(unit, unit) Program" where
  "example_Condition_assigns_NF = SimpleProgram\<lparr>Condition := (\<lambda>s ctx. (s, ctx\<lparr>NF := 7\<rparr>, True))\<rparr>"

text \<open>\<^verbatim>\<open>func (p) Begin(ctx *Context) error { ctx.SetField(1, "x"); return nil }\<close>\<close>

definition example_Begin_sets_field :: "(unit, unit) Program" where
  "example_Begin_sets_field =
     SimpleProgram\<lparr>Begin := (\<lambda>s ctx.
        (s, (case Context_SetField ctx 1 ''x'' of Inr ctx' \<Rightarrow> ctx' | Inl p \<Rightarrow> ctx), None))\<rparr>"

text \<open>
  Two programs of \<open>command_test.go\<close>:
  \<^verbatim>\<open>func (p ErrorInBeginProgram) Begin(ctx *command.Context) error {
      return errors.New("begin error")
  }
  func (p ErrorInEndProgram) End(ctx *command.Context) (string, error) {
      return "", errors.New("end error")
  }\<close>
\<close>

definition ErrorInBeginProgram :: "(unit, unit) Program" where
  "ErrorInBeginProgram = SimpleProgram\<lparr>Begin := (\<lambda>s ctx. (s, ctx, Some (New ''begin error'')))\<rparr>"

definition ErrorInEndProgram :: "(unit, unit) Program" where
  "ErrorInEndProgram = SimpleProgram\<lparr>End := (\<lambda>s ctx. (s, ctx, [], Some (New ''end error'')))\<rparr>"

text \<open>
  \<open>Awk(SimpleProgram{})\<close> with no parameters, as the tests run it: the flags are the zero
  value of the struct.
\<close>

abbreviation noParameters :: "unit flags" where
  "noParameters \<equiv> \<lparr>FieldSeparator = [], OutputFieldSeparator = [], flags_Variables = None\<rparr>"

abbreviation simpleCommand :: "(unit, unit) command" where
  "simpleCommand \<equiv> Awk SimpleProgram noParameters"

section \<open>Definitions used to state the properties\<close>

text \<open>
  The definitions named \<open>spec_\<close> follow the words of the specification; the others are
  projections of the log of hook invocations and conditions on what the hooks of a program
  do to the context.
\<close>

text \<open>
  Whitespace-run mode, in the words of the specification: leading whitespace is discarded;
  if nothing is left there are no more tokens; otherwise the next token is the longest
  run of elements that are not whitespace, and the rest is split in the same way.
\<close>

function spec_tokens :: "('a \<Rightarrow> bool) \<Rightarrow> 'a list \<Rightarrow> 'a list list" where
  "spec_tokens space xs =
     (let trimmed = dropWhile space xs in
      if trimmed = [] then []
      else takeWhile (\<lambda>x. \<not> space x) trimmed
           # spec_tokens space (dropWhile (\<lambda>x. \<not> space x) trimmed))"
  by pat_completeness auto
termination
proof (relation "measure (\<lambda>(space, xs). length xs)")
  show "wf (measure (\<lambda>(space, xs). length xs))" by simp
next
  fix space :: "'a \<Rightarrow> bool" and xs trimmed :: "'a list"
  assume t: "trimmed = dropWhile space xs" "trimmed \<noteq> []"
  then have "\<not> space (hd trimmed)"
    using hd_dropWhile by metis
  with t(2) have "length (dropWhile (\<lambda>x. \<not> space x) trimmed) < length trimmed"
    by (cases trimmed) (simp_all add: less_Suc_eq_le length_dropWhile_le)
  moreover have "length trimmed \<le> length xs"
    using t by (simp add: length_dropWhile_le)
  ultimately show "((space, dropWhile (\<lambda>x. \<not> space x) trimmed), (space, xs))
      \<in> measure (\<lambda>(space, xs). length xs)"
    by simp
qed

declare spec_tokens.simps [simp del]

text \<open>
  The whitespace-separated fields of a record: its characters are the runes of the string,
  a whitespace character is one that \<open>unicode.IsSpace\<close> accepts, and a token is the bytes
  of its runes.
\<close>

definition spec_whitespace_fields :: "string \<Rightarrow> string list" where
  "spec_whitespace_fields s =
     map (\<lambda>token. concat (map snd token)) (spec_tokens (\<lambda>(rune, bs). unicode_IsSpace rune) (runes s))"

definition spec_all_whitespace :: "string \<Rightarrow> bool" where
  "spec_all_whitespace s = (\<forall>(rune, bs) \<in> set (runes s). unicode_IsSpace rune)"

text \<open>
  The number of exact, non-overlapping occurrences of a non-empty separator in a string,
  counted from the left: an occurrence at the front is counted and stepped over, otherwise
  one byte is stepped over.
\<close>

function spec_occurrences :: "string \<Rightarrow> string \<Rightarrow> nat" where
  "spec_occurrences sep s =
     (if sep = [] \<or> s = [] then 0
      else if take (length sep) s = sep then 1 + spec_occurrences sep (drop (length sep) s)
      else spec_occurrences sep (tl s))"
  by pat_completeness auto
termination
  by (relation "measure (\<lambda>(sep, s). length s)") auto

declare spec_occurrences.simps [simp del]

text \<open>
  The invariant of the data model: the field sequence is one longer than the field count.
\<close>

definition spec_fields_invariant :: "'v Context \<Rightarrow> bool" where
  "spec_fields_invariant ctx = (int (length (Fields ctx)) = NF ctx + 1)"

text \<open>
  What the output stream holds for one hook invocation: the output of an action that
  asked to emit and the non-empty output of a teardown without error are one line each,
  the text and one line terminator; nothing else is written.
\<close>

fun spec_written :: "'v hook_call \<Rightarrow> string" where
  "spec_written (ActionCall ctx ctx' output emit) = (if emit then output @ [CHR 0x0A] else [])"
| "spec_written (EndCall ctx ctx' output err) =
     (if err = None \<and> output \<noteq> [] then output @ [CHR 0x0A] else [])"
| "spec_written (BeginCall ctx ctx' err) = []"
| "spec_written (ConditionCall ctx ctx' ok) = []"

text \<open>Projections of the log: which hook a call is of.\<close>

fun isBegin :: "'v hook_call \<Rightarrow> bool" where
  "isBegin (BeginCall ctx ctx' err) = True"
| "isBegin call = False"

fun isCondition :: "'v hook_call \<Rightarrow> bool" where
  "isCondition (ConditionCall ctx ctx' ok) = True"
| "isCondition call = False"

fun isAction :: "'v hook_call \<Rightarrow> bool" where
  "isAction (ActionCall ctx ctx' output emit) = True"
| "isAction call = False"

fun isEnd :: "'v hook_call \<Rightarrow> bool" where
  "isEnd (EndCall ctx ctx' output err) = True"
| "isEnd call = False"

text \<open>
  A program none of whose hooks assigns \<open>ctx.NR\<close>: every hook returns the context with
  the record number it was given.
\<close>

definition leavesNR :: "('s, 'v) Program \<Rightarrow> bool" where
  "leavesNR p =
     (\<forall>s ctx. NR (fst (snd (Begin p s ctx))) = NR ctx \<and>
              NR (fst (snd (Condition p s ctx))) = NR ctx \<and>
              NR (fst (snd (Action p s ctx))) = NR ctx \<and>
              NR (fst (snd (End p s ctx))) = NR ctx)"

text \<open>
  A program whose \<open>Condition\<close> and \<open>Action\<close> hooks assign neither \<open>ctx.Fields\<close> nor
  \<open>ctx.NF\<close> (and do not call \<open>SetField\<close> with an index of 0 or more).
\<close>

definition leavesFields :: "('s, 'v) Program \<Rightarrow> bool" where
  "leavesFields p =
     (\<forall>s ctx. Fields (fst (snd (Condition p s ctx))) = Fields ctx \<and>
              NF (fst (snd (Condition p s ctx))) = NF ctx \<and>
              Fields (fst (snd (Action p s ctx))) = Fields ctx \<and>
              NF (fst (snd (Action p s ctx))) = NF ctx)"

text \<open>
  The field sequence is the whole record followed by its tokens under the separator of
  the context, and the field count is the number of tokens.
\<close>

definition spec_record_split :: "'v Context \<Rightarrow> bool" where
  "spec_record_split ctx =
     (case Fields ctx of
        [] \<Rightarrow> False
      | whole # tokens \<Rightarrow> tokens = splitFields (FS ctx) whole \<and> NF ctx = int (length tokens))"

text \<open>
  One context for the whole run: starting from \<open>ctx\<close>, every hook is given the context
  as the hook invoked before it returned it, except that before each call of the filter
  the engine has applied its update for the next line.
\<close>

fun spec_threaded :: "'v Context \<Rightarrow> string list \<Rightarrow> 'v hook_call list \<Rightarrow> bool" where
  "spec_threaded ctx lines [] = True"
| "spec_threaded ctx lines (ConditionCall given ctx' ok # rest) =
     (case lines of
        [] \<Rightarrow> False
      | line # lines' \<Rightarrow> given = recordUpdate line ctx \<and> spec_threaded ctx' lines' rest)"
| "spec_threaded ctx lines (call # rest) =
     (seen call = ctx \<and> spec_threaded (returned call) lines rest)"

text \<open>The contexts given to the invocations of one hook, in the order of the log.\<close>

definition seenBy :: "('v hook_call \<Rightarrow> bool) \<Rightarrow> 'v hook_call list \<Rightarrow> 'v Context list" where
  "seenBy kind cs = map seen (filter kind cs)"

text \<open>
  The invariant of the loop behind \<open>spec_threaded\<close>: after the lines \<open>lines\<close> the log is
  threaded from \<open>ctx0\<close>, holds one filter call per line, and the context of the run is the
  one the last hook returned.
\<close>

definition run_threaded :: "'v Context \<Rightarrow> string list \<Rightarrow> ('s, 'v) run \<Rightarrow> bool" where
  "run_threaded ctx0 lines st =
     (calls st \<noteq> [] \<and> returned (last (calls st)) = awkCtx st \<and>
      length (filter isCondition (calls st)) = length lines \<and>
      spec_threaded ctx0 lines (calls st))"

section \<open>Properties of the context operations\<close>

lemma expandFields_eq:
  "expandFields fs index = fs @ replicate (nat (index + 1 - int (length fs))) []"
proof (induction fs index rule: expandFields.induct)
  case (1 fs index)
  show ?case
  proof (cases "int (length fs) \<le> index")
    case True
    then have "nat (index + 1 - int (length fs)) = Suc (nat (index + 1 - int (length (fs @ [[]]))))"
      by simp
    with True "1" show ?thesis
      by (subst expandFields.simps) (simp add: replicate_app_Cons_same)
  next
    case False
    then show ?thesis
      by (subst expandFields.simps) simp
  qed
qed

lemma length_expandFields:
  "length (expandFields fs index) = max (length fs) (nat (index + 1))"
  by (simp add: expandFields_eq)

lemma expandFields_covers: "index < int (length (expandFields fs index))"
  by (simp add: length_expandFields)

text \<open>
  Claim C5. For every context and every index, \<open>Field\<close> returns a string and never panics:
  an index that is negative or at least \<open>len(Fields)\<close> gives the empty string, an index in
  range gives that element, and so \<open>Field(0)\<close> gives \<open>Fields[0]\<close>: after the update of
  the engine for a line, the whole line.
\<close>

theorem Field_total:
  "(\<exists>s. Context_Field c i = Inr s) \<and>
   (i < 0 \<or> i \<ge> int (length (Fields c)) \<longrightarrow> Context_Field c i = Inr []) \<and>
   (0 \<le> i \<and> i < int (length (Fields c)) \<longrightarrow> Context_Field c i = Inr (Fields c ! nat i)) \<and>
   (Fields c = whole # rest \<longrightarrow> Context_Field c 0 = Inr whole) \<and>
   Context_Field (recordUpdate line ctx) 0 = Inr line"
  by (auto simp: Context_Field_def slice_get_def recordUpdate_def Let_def)

theorem Field_total_witness:
  "Context_Field (recordUpdate ''a b'' (initialContext simpleCommand)) 0 = Inr ''a b'' \<and>
   Context_Field (recordUpdate ''a b'' (initialContext simpleCommand)) 2 = Inr ''b'' \<and>
   Context_Field (recordUpdate ''a b'' (initialContext simpleCommand)) 3 = Inr [] \<and>
   Context_Field (recordUpdate ''a b'' (initialContext simpleCommand)) (- 1) = Inr []"
  using Field_total [where c = "recordUpdate ''a b'' (initialContext simpleCommand)" and i = 2
      and whole = "''a b''" and rest = "[''a'', ''b'']" and line = "''a b''"
      and ctx = "initialContext simpleCommand"]
    Field_total [where c = "recordUpdate ''a b'' (initialContext simpleCommand)" and i = 3
      and whole = "''a b''" and rest = "[''a'', ''b'']" and line = "''a b''"
      and ctx = "initialContext simpleCommand"]
    Field_total [where c = "recordUpdate ''a b'' (initialContext simpleCommand)" and i = "- 1"
      and whole = "''a b''" and rest = "[''a'', ''b'']" and line = "''a b''"
      and ctx = "initialContext simpleCommand"]
  by (simp add: recordUpdate_def splitFields_def initialContext_def Awk_def Let_def
      strings_Fields_def byte_def asciiSpace_def)

text \<open>
  Claim C6. \<open>SetField\<close> never panics. With a negative index it returns the context as it
  was. With an index \<open>i \<ge> 0\<close> the field sequence is first padded with empty strings up to
  and including index \<open>i\<close> (nothing is added when \<open>i\<close> is already in range), then element
  \<open>i\<close> is the value, every other element is as before, \<open>Field(i)\<close> returns the value, and
  \<open>NF\<close> is \<open>len(Fields) - 1\<close>; nothing else of the context changes, so writing element 0
  replaces the whole record without splitting it again.
\<close>

theorem SetField_contract:
  "(i < 0 \<longrightarrow> Context_SetField c i v = Inr c) \<and>
   (0 \<le> i \<longrightarrow>
      (\<exists>c'. Context_SetField c i v = Inr c' \<and>
         Fields c' = (Fields c @ replicate (nat (i + 1 - int (length (Fields c)))) [])[nat i := v] \<and>
         length (Fields c') = max (length (Fields c)) (nat (i + 1)) \<and>
         Context_Field c' i = Inr v \<and>
         NF c' = int (length (Fields c')) - 1 \<and>
         c' = c\<lparr>Fields := Fields c', NF := NF c'\<rparr>))"
proof (intro conjI impI)
  assume "i < 0"
  then show "Context_SetField c i v = Inr c"
    by (simp add: Context_SetField_def)
next
  assume nonneg: "0 \<le> i"
  define fs where "fs = expandFields (Fields c) i"
  define c' where "c' = c\<lparr>Fields := fs[nat i := v], NF := int (length fs) - 1\<rparr>"
  have in_range: "i < int (length fs)"
    unfolding fs_def by (rule expandFields_covers)
  have set: "Context_SetField c i v = Inr c'"
    using nonneg in_range
    by (simp add: Context_SetField_def slice_set_def fs_def [symmetric] c'_def)
  have fields: "Fields c' = (Fields c @ replicate (nat (i + 1 - int (length (Fields c)))) [])[nat i := v]"
    by (simp add: c'_def fs_def expandFields_eq)
  have len: "length (Fields c') = max (length (Fields c)) (nat (i + 1))"
    by (simp add: c'_def fs_def length_expandFields)
  have get: "Context_Field c' i = Inr v"
    using nonneg in_range by (simp add: Context_Field_def slice_get_def c'_def)
  have nf: "NF c' = int (length (Fields c')) - 1"
    by (simp add: c'_def)
  have frame: "c' = c\<lparr>Fields := Fields c', NF := NF c'\<rparr>"
    by (simp add: c'_def)
  from set fields len get nf frame
  show "\<exists>c'. Context_SetField c i v = Inr c' \<and>
         Fields c' = (Fields c @ replicate (nat (i + 1 - int (length (Fields c)))) [])[nat i := v] \<and>
         length (Fields c') = max (length (Fields c)) (nat (i + 1)) \<and>
         Context_Field c' i = Inr v \<and>
         NF c' = int (length (Fields c')) - 1 \<and>
         c' = c\<lparr>Fields := Fields c', NF := NF c'\<rparr>"
    by blast
qed

theorem SetField_contract_witness:
  "Context_SetField \<lparr>Fields = [''whole'', ''first'', ''second''], NR = 1, NF = 2, FS = '' '',
      OFS = '' '', Variables = (None :: (string \<rightharpoonup> unit) option), RS = ''x''\<rparr> (- 1) ''ignored''
     = Inr \<lparr>Fields = [''whole'', ''first'', ''second''], NR = 1, NF = 2, FS = '' '',
      OFS = '' '', Variables = None, RS = ''x''\<rparr> \<and>
   (\<exists>c'. Context_SetField \<lparr>Fields = [''whole'', ''first'', ''second''], NR = 1, NF = 2, FS = '' '',
      OFS = '' '', Variables = (None :: (string \<rightharpoonup> unit) option), RS = ''x''\<rparr> 5 ''new'' = Inr c' \<and>
      Fields c' = [''whole'', ''first'', ''second'', [], [], ''new''] \<and>
      Context_Field c' 5 = Inr ''new'' \<and> NF c' = 5)"
proof -
  show ?thesis
    using SetField_contract [where i = "- 1" and v = "''ignored''" and c = "\<lparr>Fields = [''whole'', ''first'', ''second''],
        NR = 1, NF = 2, FS = '' '', OFS = '' '', Variables = (None :: (string \<rightharpoonup> unit) option), RS = ''x''\<rparr>"]
      SetField_contract [where i = 5 and v = "''new''" and c = "\<lparr>Fields = [''whole'', ''first'', ''second''],
        NR = 1, NF = 2, FS = '' '', OFS = '' '', Variables = (None :: (string \<rightharpoonup> unit) option), RS = ''x''\<rparr>"]
    by (auto simp: eval_nat_numeral)
qed

section \<open>Properties of the library functions\<close>

subsection \<open>Splitting at a separator\<close>

lemma strings_Index_found:
  "0 \<le> strings_Index s substr \<Longrightarrow> take (length substr) (drop (nat (strings_Index s substr)) s) = substr"
proof (induction s)
  case Nil
  then show ?case by (simp split: if_splits)
next
  case (Cons c cs)
  show ?case
  proof (cases "take (length substr) (c # cs) = substr")
    case True
    then show ?thesis by simp
  next
    case False
    with Cons.prems have nonneg: "0 \<le> strings_Index cs substr"
      by (simp add: Let_def split: if_splits)
    with False have "strings_Index (c # cs) substr = strings_Index cs substr + 1"
      by (simp add: Let_def)
    moreover have "nat (strings_Index cs substr + 1) = Suc (nat (strings_Index cs substr))"
      using nonneg by simp
    ultimately show ?thesis
      using Cons.IH [OF nonneg] by simp
  qed
qed

lemma occurrences_Index_absent:
  "strings_Index s sep < 0 \<Longrightarrow> spec_occurrences sep s = 0"
proof (induction s)
  case Nil
  then show ?case by (simp add: spec_occurrences.simps)
next
  case (Cons c cs)
  from Cons.prems have no: "take (length sep) (c # cs) \<noteq> sep" and "strings_Index cs sep < 0"
    by (auto simp: Let_def split: if_splits)
  with Cons.IH show ?case
    by (subst spec_occurrences.simps) simp
qed

lemma occurrences_Index_present:
  "sep \<noteq> [] \<Longrightarrow> 0 \<le> strings_Index s sep \<Longrightarrow>
   spec_occurrences sep s = Suc (spec_occurrences sep (drop (nat (strings_Index s sep) + length sep) s))"
proof (induction s)
  case Nil
  then show ?case by simp
next
  case (Cons c cs)
  show ?case
  proof (cases "take (length sep) (c # cs) = sep")
    case True
    with Cons.prems show ?thesis
      by (subst spec_occurrences.simps) simp
  next
    case False
    with Cons.prems have nonneg: "0 \<le> strings_Index cs sep"
      by (simp add: Let_def split: if_splits)
    with False have idx: "strings_Index (c # cs) sep = strings_Index cs sep + 1"
      by (simp add: Let_def)
    have "nat (strings_Index cs sep + 1) = Suc (nat (strings_Index cs sep))"
      using nonneg by simp
    with idx False Cons.prems(1) Cons.IH [OF Cons.prems(1) nonneg] show ?thesis
      by (subst spec_occurrences.simps) simp
  qed
qed

lemma strings_Count_loop_occurrences:
  "sep \<noteq> [] \<Longrightarrow> strings_Count_loop s sep n = n + spec_occurrences sep s"
proof (induction s sep n rule: strings_Count_loop.induct)
  case (1 s substr n)
  show ?case
  proof (cases "strings_Index s substr = - 1")
    case True
    then have "spec_occurrences substr s = 0"
      by (simp add: occurrences_Index_absent)
    with True "1.prems" show ?thesis
      by (subst strings_Count_loop.simps) simp
  next
    case False
    with strings_Index_bounds [of s substr] have nonneg: "0 \<le> strings_Index s substr"
      by simp
    from False "1.prems" "1.IH" [OF "1.prems" refl False "1.prems"]
      occurrences_Index_present [OF "1.prems" nonneg]
    show ?thesis
      by (subst strings_Count_loop.simps) (simp add: Let_def)
  qed
qed

lemma count_list_occurrences: "int (count_list s c) = int (spec_occurrences [c] s)"
proof (induction s)
  case Nil
  then show ?case by (simp add: spec_occurrences.simps)
next
  case (Cons a s)
  then show ?case
    by (subst spec_occurrences.simps) auto
qed

lemma strings_Count_occurrences:
  assumes "sep \<noteq> []"
  shows "strings_Count s sep = int (spec_occurrences sep s)"
proof (cases "length sep = 1")
  case True
  then obtain c where "sep = [c]"
    by (cases sep) auto
  then show ?thesis
    by (simp add: strings_Count_def count_list_occurrences)
next
  case False
  with assms show ?thesis
    by (simp add: strings_Count_def strings_Count_loop_occurrences)
qed

lemma occurrences_le_length: "spec_occurrences sep s \<le> length s"
proof (induction sep s rule: spec_occurrences.induct)
  case (1 sep s)
  show ?case
  proof (cases "sep = [] \<or> s = []")
    case True
    then show ?thesis by (subst spec_occurrences.simps) simp
  next
    case False
    then have pos: "0 < length sep" "0 < length s" by auto
    show ?thesis
    proof (cases "take (length sep) s = sep")
      case True
      with False "1.IH"(1) have "spec_occurrences sep (drop (length sep) s) \<le> length s - length sep"
        by simp
      moreover have "length (take (length sep) s) = length sep"
        using True by simp
      then have "length sep \<le> length s"
        by simp
      moreover have "spec_occurrences sep s = 1 + spec_occurrences sep (drop (length sep) s)"
        using True False by (subst spec_occurrences.simps) simp
      ultimately show ?thesis
        using pos by arith
    next
      case no: False
      with False "1.IH"(2) have "spec_occurrences sep (tl s) \<le> length s - 1"
        by simp
      with pos no False show ?thesis
        by (subst spec_occurrences.simps) simp
    qed
  qed
qed

lemma length_genSplitLoop:
  "sep \<noteq> [] \<Longrightarrow>
   length (genSplitLoop s sep i n a) = length a + 1 + min (nat (n - i)) (spec_occurrences sep s)"
proof (induction s sep i n a rule: genSplitLoop.induct)
  case (1 s sep i n a)
  show ?case
  proof (cases "i < n")
    case False
    then show ?thesis by (subst genSplitLoop.simps) simp
  next
    case True
    show ?thesis
    proof (cases "strings_Index s sep < 0")
      case absent: True
      with True show ?thesis
        by (subst genSplitLoop.simps) (simp add: occurrences_Index_absent)
    next
      case present: False
      then have nonneg: "0 \<le> strings_Index s sep" by simp
      have "nat (n - i) = Suc (nat (n - (i + 1)))"
        using True by simp
      with True present "1.IH" [OF True refl present "1.prems"]
        occurrences_Index_present [OF "1.prems" nonneg]
      show ?thesis
        by (subst genSplitLoop.simps) (simp add: Let_def)
    qed
  qed
qed

lemma length_strings_Split:
  assumes "sep \<noteq> []"
  shows "length (strings_Split s sep) = spec_occurrences sep s + 1"
proof -
  have "int (spec_occurrences sep s) + 1 \<le> int (length s) + 1"
    using occurrences_le_length [of sep s] by simp
  with assms show ?thesis
    by (simp add: strings_Split_def genSplit_def strings_Count_occurrences length_genSplitLoop)
qed

lemma Join_snoc:
  "a \<noteq> [] \<Longrightarrow> strings_Join (a @ [x]) sep = strings_Join a sep @ sep @ x"
  by (cases a) simp_all

lemma Join_genSplitLoop:
  "strings_Join (genSplitLoop s sep i n a) sep =
     (if a = [] then s else strings_Join a sep @ sep @ s)"
proof (induction s sep i n a rule: genSplitLoop.induct)
  case (1 s sep i n a)
  show ?case
  proof (cases "i < n \<and> 0 \<le> strings_Index s sep")
    case False
    then show ?thesis
      by (subst genSplitLoop.simps) (auto simp: Let_def Join_snoc)
  next
    case True
    then have lt: "i < n" and nonneg: "\<not> strings_Index s sep < 0" by auto
    define m where "m = nat (strings_Index s sep)"
    have "take (length sep) (drop m s) = sep"
      unfolding m_def using True by (simp add: strings_Index_found)
    then have "drop m s = sep @ drop (m + length sep) s"
      by (metis append_take_drop_id drop_drop add.commute)
    then have whole: "take m s @ sep @ drop (m + length sep) s = s"
      by (metis append_take_drop_id)
    have "strings_Join (genSplitLoop s sep i n a) sep =
          strings_Join (genSplitLoop (drop (m + length sep) s) sep (i + 1) n (a @ [take m s])) sep"
      using lt nonneg by (subst genSplitLoop.simps) (simp add: Let_def m_def)
    also have "\<dots> = strings_Join (a @ [take m s]) sep @ sep @ drop (m + length sep) s"
      using "1.IH" [OF lt refl nonneg] by (simp add: m_def)
    also have "\<dots> = (if a = [] then s else strings_Join a sep @ sep @ s)"
      using whole by (cases "a = []") (simp_all add: Join_snoc)
    finally show ?thesis .
  qed
qed

lemma Join_strings_Split:
  "sep \<noteq> [] \<Longrightarrow> strings_Join (strings_Split s sep) sep = s"
  by (simp add: strings_Split_def genSplit_def Join_genSplitLoop)

subsection \<open>Splitting at whitespace\<close>

lemma spec_tokens_Nil: "spec_tokens space [] = []"
  by (simp add: spec_tokens.simps)

lemma spec_tokens_space: "space x \<Longrightarrow> spec_tokens space (x # xs) = spec_tokens space xs"
  by (subst spec_tokens.simps, subst (2) spec_tokens.simps) simp

lemma spec_tokens_nonspace:
  "\<not> space x \<Longrightarrow> spec_tokens space (x # xs) =
     (x # takeWhile (\<lambda>x. \<not> space x) xs) # spec_tokens space (dropWhile (\<lambda>x. \<not> space x) xs)"
  by (subst spec_tokens.simps) simp

lemma spec_tokens_dropWhile: "spec_tokens space (dropWhile space xs) = spec_tokens space xs"
  by (induction xs) (simp_all add: spec_tokens_space)

lemma spec_tokens_all_space: "(\<forall>x \<in> set xs. space x) \<Longrightarrow> spec_tokens space xs = []"
  by (induction xs) (simp_all add: spec_tokens_Nil spec_tokens_space)

lemma spec_tokens_tokens:
  "t \<in> set (spec_tokens space xs) \<Longrightarrow> t \<noteq> [] \<and> (\<forall>x \<in> set t. \<not> space x)"
proof (induction xs arbitrary: t rule: length_induct)
  case (1 xs)
  show ?case
  proof (cases xs)
    case Nil
    with "1.prems" show ?thesis by (simp add: spec_tokens_Nil)
  next
    case (Cons x rest)
    show ?thesis
    proof (cases "space x")
      case True
      with Cons "1.prems" have "t \<in> set (spec_tokens space rest)"
        by (simp add: spec_tokens_space)
      moreover have "length rest < length xs"
        using Cons by simp
      ultimately show ?thesis
        using "1.IH" by blast
    next
      case False
      have shorter: "length (dropWhile (\<lambda>x. \<not> space x) rest) < length xs"
        using Cons by (simp add: less_Suc_eq_le length_dropWhile_le)
      from False Cons "1.prems"
      consider "t = x # takeWhile (\<lambda>x. \<not> space x) rest"
        | "t \<in> set (spec_tokens space (dropWhile (\<lambda>x. \<not> space x) rest))"
        by (auto simp: spec_tokens_nonspace)
      then show ?thesis
      proof cases
        case 1
        with False show ?thesis
          by (auto dest: set_takeWhileD)
      next
        case 2
        with shorter "1.IH" show ?thesis by blast
      qed
    qed
  qed
qed

lemma concat_spec_tokens:
  "concat (spec_tokens space xs) = filter (\<lambda>x. \<not> space x) xs"
proof (induction xs rule: length_induct)
  case (1 xs)
  show ?case
  proof (cases xs)
    case Nil
    then show ?thesis by (simp add: spec_tokens_Nil)
  next
    case (Cons x rest)
    show ?thesis
    proof (cases "space x")
      case True
      with Cons "1.IH" show ?thesis
        by (simp add: spec_tokens_space)
    next
      case False
      have "length (dropWhile (\<lambda>x. \<not> space x) rest) < length xs"
        using Cons by (simp add: less_Suc_eq_le length_dropWhile_le)
      with "1.IH" have ih: "concat (spec_tokens space (dropWhile (\<lambda>x. \<not> space x) rest))
          = filter (\<lambda>x. \<not> space x) (dropWhile (\<lambda>x. \<not> space x) rest)"
        by blast
      have "filter (\<lambda>x. \<not> space x) rest
          = takeWhile (\<lambda>x. \<not> space x) rest
            @ filter (\<lambda>x. \<not> space x) (dropWhile (\<lambda>x. \<not> space x) rest)"
        by (induction rest) simp_all
      then show ?thesis
        using False Cons ih by (simp add: spec_tokens_nonspace)
    qed
  qed
qed

lemma fieldsFuncLoop_spec:
  "fieldsFuncLoop f rs start spans =
     spans @ (case start of
                None \<Rightarrow> map (\<lambda>token. concat (map snd token)) (spec_tokens (\<lambda>(rune, bs). f rune) rs)
              | Some t \<Rightarrow>
                  (t @ concat (map snd (takeWhile (\<lambda>(rune, bs). \<not> f rune) rs)))
                  # map (\<lambda>token. concat (map snd token))
                      (spec_tokens (\<lambda>(rune, bs). f rune) (dropWhile (\<lambda>(rune, bs). \<not> f rune) rs)))"
proof (induction rs arbitrary: start spans)
  case Nil
  then show ?case by (simp add: spec_tokens_Nil split: option.splits)
next
  case (Cons r rs)
  obtain rune bs where r: "r = (rune, bs)" by (cases r)
  have nonsp: "(\<lambda>x. \<not> (case x of (rune, bs) \<Rightarrow> f rune)) = (\<lambda>(rune, bs). \<not> f rune)"
    by auto
  show ?case
  proof (cases "f rune")
    case True
    then show ?thesis
      by (simp add: r Cons.IH spec_tokens_space split: option.splits)
  next
    case False
    then show ?thesis
      by (simp add: r Cons.IH spec_tokens_nonspace nonsp split: option.splits)
  qed
qed

lemma strings_FieldsFunc_spec:
  "strings_FieldsFunc s unicode_IsSpace = spec_whitespace_fields s"
  by (simp add: strings_FieldsFunc_def spec_whitespace_fields_def fieldsFuncLoop_spec)

lemma skipSpaces_dropWhile: "skipSpaces s = dropWhile asciiSpace s"
  by (induction s) simp_all

lemma asciiFieldsLoop_spec:
  "asciiFieldsLoop cs field a =
     a @ (if cs = [] \<and> field = [] then []
          else (field @ takeWhile (\<lambda>c. \<not> asciiSpace c) cs)
               # spec_tokens asciiSpace (dropWhile (\<lambda>c. \<not> asciiSpace c) cs))"
proof (induction cs field a rule: asciiFieldsLoop.induct)
  case (1 field a)
  then show ?case by (simp add: spec_tokens_Nil)
next
  case (2 c cs field a)
  show ?case
  proof (cases "asciiSpace c")
    case False
    with "2.IH"(1) show ?thesis by simp
  next
    case True
    have "spec_tokens asciiSpace (c # cs) = spec_tokens asciiSpace (skipSpaces cs)"
      using True by (simp add: spec_tokens_space skipSpaces_dropWhile spec_tokens_dropWhile)
    also have "\<dots> = (if skipSpaces cs = [] then []
        else takeWhile (\<lambda>c. \<not> asciiSpace c) (skipSpaces cs)
             # spec_tokens asciiSpace (dropWhile (\<lambda>c. \<not> asciiSpace c) (skipSpaces cs)))"
      by (subst spec_tokens.simps) (simp add: skipSpaces_dropWhile Let_def)
    finally show ?thesis
      using True "2.IH"(2) by simp
  qed
qed

lemma asciiFields_spec:
  "asciiFieldsLoop (skipSpaces s) [] [] = spec_tokens asciiSpace s"
proof -
  have "spec_tokens asciiSpace s = (if skipSpaces s = [] then []
        else takeWhile (\<lambda>c. \<not> asciiSpace c) (skipSpaces s)
             # spec_tokens asciiSpace (dropWhile (\<lambda>c. \<not> asciiSpace c) (skipSpaces s)))"
    by (subst spec_tokens.simps) (simp add: skipSpaces_dropWhile Let_def)
  then show ?thesis
    by (simp add: asciiFieldsLoop_spec)
qed

lemma runes_ascii:
  "\<forall>c \<in> set s. byte c < 0x80 \<Longrightarrow> runes s = map (\<lambda>c. (byte c, [c])) s"
proof (induction s)
  case Nil
  then show ?case by (simp add: runes.simps)
next
  case (Cons c s)
  then have "utf8_DecodeRuneInString (c # s) = (byte c, 1)"
    by (simp add: utf8_DecodeRuneInString_def)
  with Cons show ?case
    by (subst runes.simps) simp
qed

lemma unicode_IsSpace_ascii: "byte c < 0x80 \<Longrightarrow> unicode_IsSpace (byte c) = asciiSpace c"
  by (auto simp: unicode_IsSpace_def asciiSpace_def)

lemma spec_tokens_map:
  "\<forall>x \<in> set xs. P (g x) = Q x \<Longrightarrow>
   spec_tokens P (map g xs) = map (map g) (spec_tokens Q xs)"
proof (induction xs rule: length_induct)
  case (1 xs)
  show ?case
  proof (cases xs)
    case Nil
    then show ?thesis by (simp add: spec_tokens_Nil)
  next
    case (Cons x rest)
    show ?thesis
    proof (cases "Q x")
      case True
      with Cons "1.prems" "1.IH" show ?thesis
        by (simp add: spec_tokens_space)
    next
      case False
      have same: "\<forall>y \<in> set rest. P (g y) = Q y"
        using Cons "1.prems" by simp
      then have tw: "takeWhile (\<lambda>x. \<not> P x) (map g rest) = map g (takeWhile (\<lambda>x. \<not> Q x) rest)"
        by (induction rest) simp_all
      from same have dw: "dropWhile (\<lambda>x. \<not> P x) (map g rest) = map g (dropWhile (\<lambda>x. \<not> Q x) rest)"
        by (induction rest) simp_all
      have "length (dropWhile (\<lambda>x. \<not> Q x) rest) < length xs"
        using Cons by (simp add: less_Suc_eq_le length_dropWhile_le)
      moreover have "\<forall>y \<in> set (dropWhile (\<lambda>x. \<not> Q x) rest). P (g y) = Q y"
        using same set_dropWhileD by fast
      ultimately have "spec_tokens P (map g (dropWhile (\<lambda>x. \<not> Q x) rest))
          = map (map g) (spec_tokens Q (dropWhile (\<lambda>x. \<not> Q x) rest))"
        using "1.IH" by blast
      with False Cons "1.prems" tw dw show ?thesis
        by (simp add: spec_tokens_nonspace)
    qed
  qed
qed

lemma spec_whitespace_fields_ascii:
  assumes "\<forall>c \<in> set s. byte c < 0x80"
  shows "spec_whitespace_fields s = spec_tokens asciiSpace s"
proof -
  have "spec_tokens (\<lambda>(rune, bs). unicode_IsSpace rune) (map (\<lambda>c. (byte c, [c])) s)
        = map (map (\<lambda>c. (byte c, [c]))) (spec_tokens asciiSpace s)"
    using assms by (intro spec_tokens_map) (simp add: unicode_IsSpace_ascii)
  moreover have "concat (map snd (map (\<lambda>c. (byte c, [c])) t)) = t" for t :: string
    by (induction t) simp_all
  ultimately show ?thesis
    using assms by (simp add: spec_whitespace_fields_def runes_ascii comp_def)
qed

lemma strings_Fields_spec: "strings_Fields s = spec_whitespace_fields s"
proof (cases "\<exists>c \<in> set s. 0x80 \<le> byte c")
  case True
  then show ?thesis
    by (simp add: strings_Fields_def strings_FieldsFunc_spec)
next
  case False
  then have "\<forall>c \<in> set s. byte c < 0x80"
    by (simp add: not_le)
  with False show ?thesis
    by (simp add: strings_Fields_def asciiFields_spec spec_whitespace_fields_ascii)
qed

lemma spec_all_whitespace_fields:
  "spec_all_whitespace s \<Longrightarrow> spec_whitespace_fields s = []"
  by (simp add: spec_all_whitespace_def spec_whitespace_fields_def spec_tokens_all_space)

lemma runes_Nil: "runes [] = []"
  by (simp add: runes.simps)

section \<open>The per-record update\<close>

text \<open>
  The equations that evaluate the engine, the library functions and the definitions of the
  specification on a concrete input.
\<close>

lemmas engine_eval = Executor_def beginPhase_def endPhase_def loopBody_def recordUpdate_def
  splitFields_def initialContext_def Awk_def SimpleProgram_def Let_def Fprintln_def
  Context_Field_def Context_SetField_def slice_get_def slice_set_def expandFields.simps
  seenBy_def spec_fields_invariant_def

lemmas strings_eval = strings_Fields_def strings_FieldsFunc_def runes.simps
  utf8_DecodeRuneInString_def utf8_first_def unicode_IsSpace_def utf8_RuneError_def byte_def
  asciiSpace_def strings_Split_def genSplit_def genSplitLoop.simps strings_Count_def
  strings_Count_loop.simps explode_def

lemmas spec_eval = spec_whitespace_fields_def spec_all_whitespace_def spec_tokens.simps
  spec_occurrences.simps spec_record_split_def

lemma Fields_recordUpdate:
  "Fields (recordUpdate line ctx) = line # splitFields (FS ctx) line"
  by (simp add: recordUpdate_def Let_def)

lemma NF_recordUpdate:
  "NF (recordUpdate line ctx) = int (length (splitFields (FS ctx) line))"
  by (simp add: recordUpdate_def Let_def)

lemma NR_recordUpdate: "NR (recordUpdate line ctx) = NR ctx + 1"
  by (simp add: recordUpdate_def Let_def)

lemma recordUpdate_frame:
  "FS (recordUpdate line ctx) = FS ctx \<and> OFS (recordUpdate line ctx) = OFS ctx \<and>
   Variables (recordUpdate line ctx) = Variables ctx \<and> RS (recordUpdate line ctx) = RS ctx"
  by (simp add: recordUpdate_def Let_def)

lemma FS_configured:
  "FS (initialContext (Awk prog parameters)) =
     (if FieldSeparator parameters = [] then '' '' else FieldSeparator parameters)"
  by (simp add: initialContext_def Awk_def Let_def)

text \<open>
  Claim C1. Under a separator other than the whitespace sentinel \<open>" "\<close>, the update for
  the empty record leaves zero fields: \<open>NF\<close> is 0 and \<open>Fields\<close> holds the record alone,
  although \<open>strings.Split\<close> of the empty string at a non-empty separator has one element.
\<close>

theorem empty_record_no_fields:
  "FS ctx \<noteq> '' '' \<Longrightarrow>
   NF (recordUpdate [] ctx) = 0 \<and> Fields (recordUpdate [] ctx) = [[]] \<and>
   (FS ctx \<noteq> [] \<longrightarrow> length (strings_Split [] (FS ctx)) = 1)"
  by (simp add: Fields_recordUpdate NF_recordUpdate splitFields_def length_strings_Split
      spec_occurrences.simps)

theorem empty_record_no_fields_witness:
  "NF (recordUpdate [] (initialContext (Awk (SimpleProgram :: (unit, unit) Program)
       \<lparr>FieldSeparator = '','', OutputFieldSeparator = [], flags_Variables = None\<rparr>))) = 0 \<and>
   Fields (recordUpdate [] (initialContext (Awk (SimpleProgram :: (unit, unit) Program)
       \<lparr>FieldSeparator = '','', OutputFieldSeparator = [], flags_Variables = None\<rparr>))) = [[]] \<and>
   length (strings_Split [] '','') = 1"
  using empty_record_no_fields [of "initialContext (Awk (SimpleProgram :: (unit, unit) Program)
       \<lparr>FieldSeparator = '','', OutputFieldSeparator = [], flags_Variables = None\<rparr>)"]
  by (simp add: initialContext_def Awk_def)

text \<open>
  Claim C2. Under the whitespace sentinel \<open>" "\<close>, for every record \<open>s\<close>, the fields after
  the update are the tokens of \<open>s\<close> between maximal runs of whitespace, with leading and
  trailing whitespace discarded, and \<open>NF\<close> is their number; an empty record and a record
  of whitespace only have zero fields.
\<close>

theorem whitespace_mode_fields:
  "FS ctx = '' '' \<Longrightarrow>
   Fields (recordUpdate s ctx) = s # spec_whitespace_fields s \<and>
   NF (recordUpdate s ctx) = int (length (spec_whitespace_fields s)) \<and>
   (s = [] \<or> spec_all_whitespace s \<longrightarrow>
      NF (recordUpdate s ctx) = 0 \<and> Fields (recordUpdate s ctx) = [s])"
proof -
  assume ws: "FS ctx = '' ''"
  have empty: "spec_all_whitespace []"
    by (simp add: spec_all_whitespace_def runes_Nil)
  have none: "s = [] \<or> spec_all_whitespace s \<Longrightarrow> spec_whitespace_fields s = []"
    using empty spec_all_whitespace_fields by blast
  from ws have "splitFields (FS ctx) s = spec_whitespace_fields s"
    by (simp add: splitFields_def strings_Fields_spec)
  with none show ?thesis
    by (auto simp: Fields_recordUpdate NF_recordUpdate)
qed

theorem whitespace_mode_fields_witness:
  "Fields (recordUpdate ''  one two   three '' (initialContext (Awk (SimpleProgram :: (unit, unit) Program)
       \<lparr>FieldSeparator = [], OutputFieldSeparator = [], flags_Variables = None\<rparr>)))
     = [''  one two   three '', ''one'', ''two'', ''three''] \<and>
   NF (recordUpdate ''  one two   three '' (initialContext (Awk (SimpleProgram :: (unit, unit) Program)
       \<lparr>FieldSeparator = [], OutputFieldSeparator = [], flags_Variables = None\<rparr>))) = 3 \<and>
   NF (recordUpdate [CHR '' '', CHR 0x09, CHR '' ''] (initialContext (Awk (SimpleProgram :: (unit, unit) Program)
       \<lparr>FieldSeparator = [], OutputFieldSeparator = [], flags_Variables = None\<rparr>))) = 0 \<and>
   NF (recordUpdate [] (initialContext (Awk (SimpleProgram :: (unit, unit) Program)
       \<lparr>FieldSeparator = [], OutputFieldSeparator = [], flags_Variables = None\<rparr>))) = 0 \<and>
   Fields (recordUpdate [CHR ''a'', CHR 0xC2, CHR 0xA0, CHR ''b'', CHR 0xE2, CHR 0x80, CHR 0x83]
       (initialContext (Awk (SimpleProgram :: (unit, unit) Program)
       \<lparr>FieldSeparator = [], OutputFieldSeparator = [], flags_Variables = None\<rparr>)))
     = [[CHR ''a'', CHR 0xC2, CHR 0xA0, CHR ''b'', CHR 0xE2, CHR 0x80, CHR 0x83], ''a'', ''b'']"
  using whitespace_mode_fields [of "initialContext (Awk (SimpleProgram :: (unit, unit) Program)
       \<lparr>FieldSeparator = [], OutputFieldSeparator = [], flags_Variables = None\<rparr>)"
       "[CHR ''a'', CHR 0xC2, CHR 0xA0, CHR ''b'', CHR 0xE2, CHR 0x80, CHR 0x83]"]
    whitespace_mode_fields [of "initialContext (Awk (SimpleProgram :: (unit, unit) Program)
       \<lparr>FieldSeparator = [], OutputFieldSeparator = [], flags_Variables = None\<rparr>)" "''  one two   three ''"]
    whitespace_mode_fields [of "initialContext (Awk (SimpleProgram :: (unit, unit) Program)
       \<lparr>FieldSeparator = [], OutputFieldSeparator = [], flags_Variables = None\<rparr>)" "[CHR '' '', CHR 0x09, CHR '' '']"]
    whitespace_mode_fields [of "initialContext (Awk (SimpleProgram :: (unit, unit) Program)
       \<lparr>FieldSeparator = [], OutputFieldSeparator = [], flags_Variables = None\<rparr>)" "[]"]
  by (simp add: initialContext_def Awk_def spec_eval runes.simps utf8_DecodeRuneInString_def
      utf8_first_def unicode_IsSpace_def byte_def)

text \<open>
  Claim C3. A separator configured through \<open>Awk\<close> is never empty. For every non-empty
  record \<open>s\<close> and every literal separator (neither \<open>" "\<close> nor empty), \<open>NF\<close> after the
  update is the number of non-overlapping occurrences of the separator in \<open>s\<close> plus 1,
  the fields are those of \<open>strings.Split\<close>, and joining them with the separator gives
  \<open>s\<close> back, so adjacent occurrences leave an empty field between them.
\<close>

theorem literal_mode_field_count:
  "FS (initialContext (Awk prog parameters)) \<noteq> [] \<and>
   (FS ctx \<noteq> '' '' \<and> FS ctx \<noteq> [] \<and> s \<noteq> [] \<longrightarrow>
      NF (recordUpdate s ctx) = int (spec_occurrences (FS ctx) s) + 1 \<and>
      Fields (recordUpdate s ctx) = s # strings_Split s (FS ctx) \<and>
      strings_Join (tl (Fields (recordUpdate s ctx))) (FS ctx) = s)"
  by (simp add: FS_configured Fields_recordUpdate NF_recordUpdate splitFields_def length_strings_Split
      Join_strings_Split)

theorem literal_mode_field_count_witness:
  "NF (recordUpdate ''a,,b'' (initialContext (Awk (SimpleProgram :: (unit, unit) Program)
       \<lparr>FieldSeparator = '','', OutputFieldSeparator = [], flags_Variables = None\<rparr>))) = 3 \<and>
   Fields (recordUpdate ''a,,b'' (initialContext (Awk (SimpleProgram :: (unit, unit) Program)
       \<lparr>FieldSeparator = '','', OutputFieldSeparator = [], flags_Variables = None\<rparr>)))
     = [''a,,b'', ''a'', [], ''b'']"
  using literal_mode_field_count [where ctx = "initialContext (Awk (SimpleProgram :: (unit, unit) Program)
       \<lparr>FieldSeparator = '','', OutputFieldSeparator = [], flags_Variables = None\<rparr>)" and s = "''a,,b''"
       and prog = "SimpleProgram :: (unit, unit) Program"
       and parameters = "\<lparr>FieldSeparator = '','', OutputFieldSeparator = [], flags_Variables = (None :: (string \<rightharpoonup> unit) option)\<rparr>"]
  by (simp add: initialContext_def Awk_def spec_eval strings_eval)

section \<open>The run\<close>

subsection \<open>The loop and the phases\<close>

lemma loopBody_cases:
  obtains (skip) s1 ctx1 where
      "Condition p (progState st) (recordUpdate line (awkCtx st)) = (s1, ctx1, False)"
      "loopBody p line st = st\<lparr>awkCtx := ctx1, progState := s1,
          calls := calls st @ [ConditionCall (recordUpdate line (awkCtx st)) ctx1 False]\<rparr>"
  | (act) s1 ctx1 s2 ctx2 out emit where
      "Condition p (progState st) (recordUpdate line (awkCtx st)) = (s1, ctx1, True)"
      "Action p s1 ctx1 = (s2, ctx2, out, emit)"
      "loopBody p line st = st\<lparr>awkCtx := ctx2, progState := s2,
          calls := calls st @ [ConditionCall (recordUpdate line (awkCtx st)) ctx1 True,
                              ActionCall ctx1 ctx2 out emit],
          stdout := stdout st @ (if emit then out @ [CHR 0x0A] else [])\<rparr>"
proof -
  obtain s1 ctx1 ok where c: "Condition p (progState st) (recordUpdate line (awkCtx st)) = (s1, ctx1, ok)"
    by (metis prod_cases3)
  show thesis
  proof (cases ok)
    case False
    with c show ?thesis
      by (intro skip [of s1 ctx1]) (simp_all add: loopBody_def Let_def)
  next
    case True
    obtain s2 ctx2 out emit where a: "Action p s1 ctx1 = (s2, ctx2, out, emit)"
      by (metis prod_cases4)
    with c True show ?thesis
      by (intro act [of s1 ctx1 s2 ctx2 out emit]) (simp_all add: loopBody_def Let_def Fprintln_def)
  qed
qed

lemma processLines_append:
  "processLines p (ls @ ls') st = processLines p ls' (processLines p ls st)"
  by (induction ls arbitrary: st) simp_all

lemma processLines_snoc:
  "processLines p (ls @ [l]) st = loopBody p l (processLines p ls st)"
  by (simp add: processLines_append)

lemma beginPhase_calls:
  "calls (fst (beginPhase c s0)) =
     [BeginCall (initialContext c) (fst (snd (Begin (program c) s0 (initialContext c))))
        (snd (snd (Begin (program c) s0 (initialContext c))))]"
  by (simp add: beginPhase_def Let_def split: prod.splits)

lemma beginPhase_stdout: "stdout (fst (beginPhase c s0)) = []"
  by (simp add: beginPhase_def Let_def split: prod.splits)

lemma beginPhase_err: "snd (beginPhase c s0) = snd (snd (Begin (program c) s0 (initialContext c)))"
  by (simp add: beginPhase_def Let_def split: prod.splits)

lemma beginPhase_awkCtx:
  "awkCtx (fst (beginPhase c s0)) = fst (snd (Begin (program c) s0 (initialContext c)))"
  by (simp add: beginPhase_def Let_def split: prod.splits)

lemma endPhase_calls:
  "calls (fst (endPhase p st)) =
     calls st @ [EndCall (awkCtx st) (fst (snd (End p (progState st) (awkCtx st))))
        (fst (snd (snd (End p (progState st) (awkCtx st)))))
        (snd (snd (snd (End p (progState st) (awkCtx st)))))]"
  by (simp add: endPhase_def Let_def split: prod.splits option.splits)

lemma endPhase_err:
  "snd (endPhase p st) = map_option (Wrapped ''END: '') (snd (snd (snd (End p (progState st) (awkCtx st)))))"
  by (simp add: endPhase_def Let_def split: prod.splits option.splits)

lemma endPhase_awkCtx:
  "awkCtx (fst (endPhase p st)) = fst (snd (End p (progState st) (awkCtx st)))"
proof -
  obtain s2 ctx2 endOutput err where "End p (progState st) (awkCtx st) = (s2, ctx2, endOutput, err)"
    by (metis prod_cases4)
  then show ?thesis
    by (cases err) (simp_all add: endPhase_def Let_def)
qed

lemma Executor_Begin_error:
  "snd (beginPhase c s0) = Some e \<Longrightarrow>
   Executor c s0 stdin = (fst (beginPhase c s0), Some (Wrapped ''BEGIN: '' e))"
  by (cases "beginPhase c s0") (simp add: Executor_def)

lemma Executor_read_error:
  "snd (beginPhase c s0) = None \<Longrightarrow> scanErr stdin = Some e \<Longrightarrow>
   Executor c s0 stdin = (processLines (program c) (scanned stdin) (fst (beginPhase c s0)), Some e)"
  by (cases "beginPhase c s0") (simp add: Executor_def)

lemma Executor_to_End:
  "snd (beginPhase c s0) = None \<Longrightarrow> scanErr stdin = None \<Longrightarrow>
   Executor c s0 stdin = endPhase (program c) (processLines (program c) (scanned stdin) (fst (beginPhase c s0)))"
  by (cases "beginPhase c s0") (simp add: Executor_def)

lemma leavesNR_SimpleProgram: "leavesNR SimpleProgram"
  by (simp add: leavesNR_def SimpleProgram_def)

lemma leavesFields_SimpleProgram: "leavesFields SimpleProgram"
  by (simp add: leavesFields_def SimpleProgram_def)

subsection \<open>What is written\<close>

lemma loopBody_written:
  "stdout st = concat (map spec_written (calls st)) \<Longrightarrow>
   stdout (loopBody p line st) = concat (map spec_written (calls (loopBody p line st)))"
  by (cases rule: loopBody_cases [of p st line]) simp_all

lemma processLines_written:
  "stdout st = concat (map spec_written (calls st)) \<Longrightarrow>
   stdout (processLines p ls st) = concat (map spec_written (calls (processLines p ls st)))"
  by (induction ls arbitrary: st) (simp_all add: loopBody_written)

lemma beginPhase_written:
  "stdout (fst (beginPhase c s0)) = concat (map spec_written (calls (fst (beginPhase c s0))))"
  by (simp add: beginPhase_def Let_def split: prod.splits)

lemma endPhase_written:
  "stdout st = concat (map spec_written (calls st)) \<Longrightarrow>
   stdout (fst (endPhase p st)) = concat (map spec_written (calls (fst (endPhase p st))))"
  by (simp add: endPhase_def Let_def Fprintln_def split: prod.splits option.splits)

lemma Executor_written:
  "stdout (fst (Executor c s0 stdin)) = concat (map spec_written (calls (fst (Executor c s0 stdin))))"
proof -
  obtain st berr where b: "beginPhase c s0 = (st, berr)"
    by (cases "beginPhase c s0")
  then have inv: "stdout st = concat (map spec_written (calls st))"
    using beginPhase_written [of c s0] by simp
  show ?thesis
  proof (cases berr)
    case (Some e)
    with b inv show ?thesis by (simp add: Executor_def)
  next
    case None
    note loop = processLines_written [OF inv, of "program c" "scanned stdin"]
    show ?thesis
    proof (cases "scanErr stdin")
      case (Some e)
      with b None loop show ?thesis by (simp add: Executor_def)
    next
      case noerr: None
      with b None endPhase_written [OF loop] show ?thesis by (simp add: Executor_def)
    qed
  qed
qed

text \<open>
  Claim C9. The output of a run is, in the order of the hook invocations, the output of
  each action that returned \<open>emit = true\<close> followed by one newline, and at the end the
  output of \<open>End\<close> followed by one newline when \<open>End\<close> returned no error and a non-empty
  output; nothing else is written. For one record: when the filter returns true and the
  action returns \<open>(out, true)\<close>, the loop body appends \<open>out\<close> and one newline, also for
  an empty \<open>out\<close>.
\<close>

theorem output_lines:
  "stdout (fst (Executor c s0 stdin)) = concat (map spec_written (calls (fst (Executor c s0 stdin)))) \<and>
   (Condition p (progState st) (recordUpdate line (awkCtx st)) = (s1, ctx1, True) \<longrightarrow>
    Action p s1 ctx1 = (s2, ctx2, out, True) \<longrightarrow>
      stdout (loopBody p line st) = stdout st @ out @ [CHR 0x0A]) \<and>
   (End p (progState st) (awkCtx st) = (s3, ctx3, endOutput, None) \<longrightarrow>
      stdout (fst (endPhase p st)) = stdout st @ (if endOutput \<noteq> [] then endOutput @ [CHR 0x0A] else []))"
proof (intro conjI impI)
  show "stdout (fst (Executor c s0 stdin)) = concat (map spec_written (calls (fst (Executor c s0 stdin))))"
    by (rule Executor_written)
next
  assume "Condition p (progState st) (recordUpdate line (awkCtx st)) = (s1, ctx1, True)"
    and "Action p s1 ctx1 = (s2, ctx2, out, True)"
  then show "stdout (loopBody p line st) = stdout st @ out @ [CHR 0x0A]"
    by (simp add: loopBody_def Let_def Fprintln_def)
next
  assume "End p (progState st) (awkCtx st) = (s3, ctx3, endOutput, None)"
  then show "stdout (fst (endPhase p st)) = stdout st @ (if endOutput \<noteq> [] then endOutput @ [CHR 0x0A] else [])"
    by (simp add: endPhase_def Let_def Fprintln_def)
qed

theorem output_lines_witness:
  "stdout (fst (Executor simpleCommand () \<lparr>scanned = [''a b'', []], scanErr = None\<rparr>))
     = ''a b'' @ [CHR 0x0A] @ [CHR 0x0A] \<and>
   stdout (loopBody SimpleProgram ''a b'' (fst (beginPhase simpleCommand ()))) = ''a b'' @ [CHR 0x0A] \<and>
   stdout (fst (endPhase SimpleProgram (fst (beginPhase simpleCommand ())))) = []"
  using output_lines [where c = simpleCommand and ?s0.0 = "()"
      and stdin = "\<lparr>scanned = [''a b'', []], scanErr = None\<rparr>"
      and p = SimpleProgram and st = "fst (beginPhase simpleCommand ())" and line = "''a b''"
      and ?s1.0 = "()" and ?ctx1.0 = "recordUpdate ''a b'' (initialContext simpleCommand)"
      and ?s2.0 = "()" and ?ctx2.0 = "recordUpdate ''a b'' (initialContext simpleCommand)"
      and out = "''a b''" and ?s3.0 = "()" and ?ctx3.0 = "initialContext simpleCommand"
      and endOutput = "[]"]
  by (simp add: engine_eval strings_eval)

subsection \<open>Which hooks run\<close>

lemma loopBody_no_End: "filter isEnd (calls (loopBody p line st)) = filter isEnd (calls st)"
  by (cases rule: loopBody_cases [of p st line]) simp_all

lemma processLines_no_End: "filter isEnd (calls (processLines p ls st)) = filter isEnd (calls st)"
  by (induction ls arbitrary: st) (simp_all add: loopBody_no_End)

lemma End_once_phases:
  "length (filter isEnd (calls (fst (Executor c s0 stdin)))) =
     (if snd (beginPhase c s0) = None \<and> scanErr stdin = None then 1 else 0) \<and>
   (snd (beginPhase c s0) = Some e \<longrightarrow>
      snd (Executor c s0 stdin) = Some (Wrapped ''BEGIN: '' e) \<and>
      calls (fst (Executor c s0 stdin)) =
        [BeginCall (initialContext c) (fst (snd (Begin (program c) s0 (initialContext c)))) (Some e)] \<and>
      stdout (fst (Executor c s0 stdin)) = []) \<and>
   (snd (beginPhase c s0) = None \<and> scanErr stdin = Some e \<longrightarrow>
      snd (Executor c s0 stdin) = Some e \<and>
      fst (Executor c s0 stdin) = processLines (program c) (scanned stdin) (fst (beginPhase c s0)) \<and>
      stdout (fst (Executor c s0 stdin)) =
        concat (map spec_written (calls (processLines (program c) (scanned stdin) (fst (beginPhase c s0)))))) \<and>
   (snd (beginPhase c s0) = None \<and> scanErr stdin = None \<longrightarrow>
      isEnd (last (calls (fst (Executor c s0 stdin)))) \<and>
      snd (Executor c s0 stdin) =
        map_option (Wrapped ''END: '')
          (snd (snd (snd (End (program c)
             (progState (processLines (program c) (scanned stdin) (fst (beginPhase c s0))))
             (awkCtx (processLines (program c) (scanned stdin) (fst (beginPhase c s0)))))))))"
proof (intro conjI impI)
  show "length (filter isEnd (calls (fst (Executor c s0 stdin)))) =
     (if snd (beginPhase c s0) = None \<and> scanErr stdin = None then 1 else 0)"
  proof (cases "snd (beginPhase c s0)")
    case (Some e')
    then show ?thesis
      by (simp add: Executor_Begin_error beginPhase_calls)
  next
    case None
    show ?thesis
    proof (cases "scanErr stdin")
      case (Some e')
      with None show ?thesis
        by (simp add: Executor_read_error processLines_no_End beginPhase_calls)
    next
      case noerr: None
      with None show ?thesis
        by (simp add: Executor_to_End endPhase_calls processLines_no_End beginPhase_calls)
    qed
  qed
next
  assume b: "snd (beginPhase c s0) = Some e"
  then show "snd (Executor c s0 stdin) = Some (Wrapped ''BEGIN: '' e)"
    by (simp add: Executor_Begin_error)
  from b show "calls (fst (Executor c s0 stdin)) =
        [BeginCall (initialContext c) (fst (snd (Begin (program c) s0 (initialContext c)))) (Some e)]"
    by (simp add: Executor_Begin_error beginPhase_calls beginPhase_err [symmetric])
  from b show "stdout (fst (Executor c s0 stdin)) = []"
    by (simp add: Executor_Begin_error beginPhase_stdout)
next
  assume r: "snd (beginPhase c s0) = None \<and> scanErr stdin = Some e"
  then show "snd (Executor c s0 stdin) = Some e"
    by (simp add: Executor_read_error)
  from r show run: "fst (Executor c s0 stdin) = processLines (program c) (scanned stdin) (fst (beginPhase c s0))"
    by (simp add: Executor_read_error)
  show "stdout (fst (Executor c s0 stdin)) =
        concat (map spec_written (calls (processLines (program c) (scanned stdin) (fst (beginPhase c s0)))))"
    using Executor_written [of c s0 stdin] by (simp add: run)
next
  assume ok: "snd (beginPhase c s0) = None \<and> scanErr stdin = None"
  then show "isEnd (last (calls (fst (Executor c s0 stdin))))"
    by (simp add: Executor_to_End endPhase_calls)
  from ok show "snd (Executor c s0 stdin) =
        map_option (Wrapped ''END: '')
          (snd (snd (snd (End (program c)
             (progState (processLines (program c) (scanned stdin) (fst (beginPhase c s0))))
             (awkCtx (processLines (program c) (scanned stdin) (fst (beginPhase c s0))))))))"
    by (simp add: Executor_to_End endPhase_err)
qed

text \<open>
  Claim C8. \<open>End\<close> is invoked exactly once when \<open>Begin\<close> returns no error and the input
  ends without a read error, and not at all otherwise. An error of \<open>Begin\<close> ends the run
  with that error wrapped as \<open>BEGIN: \<close>, after the call of \<open>Begin\<close> alone and with nothing
  written. A read error ends the run with that error, after the loop over the lines that
  were read and without a call of \<open>End\<close>; the output is what the hooks of those lines
  emitted. Otherwise the call of \<open>End\<close> is the last one, and the run returns the error of
  \<open>End\<close> wrapped as \<open>END: \<close>, or no error.
\<close>

theorem End_once:
  "length (filter isEnd (calls (fst (Executor c s0 stdin)))) =
     (if snd (snd (Begin (program c) s0 (initialContext c))) = None \<and> scanErr stdin = None then 1 else 0) \<and>
   (snd (snd (Begin (program c) s0 (initialContext c))) = Some e \<longrightarrow>
      snd (Executor c s0 stdin) = Some (Wrapped ''BEGIN: '' e) \<and>
      calls (fst (Executor c s0 stdin)) =
        [BeginCall (initialContext c) (fst (snd (Begin (program c) s0 (initialContext c)))) (Some e)] \<and>
      stdout (fst (Executor c s0 stdin)) = []) \<and>
   (snd (snd (Begin (program c) s0 (initialContext c))) = None \<and> scanErr stdin = Some e \<longrightarrow>
      snd (Executor c s0 stdin) = Some e \<and>
      fst (Executor c s0 stdin) = processLines (program c) (scanned stdin) (fst (beginPhase c s0)) \<and>
      stdout (fst (Executor c s0 stdin)) =
        concat (map spec_written (calls (processLines (program c) (scanned stdin) (fst (beginPhase c s0)))))) \<and>
   (snd (snd (Begin (program c) s0 (initialContext c))) = None \<and> scanErr stdin = None \<longrightarrow>
      isEnd (last (calls (fst (Executor c s0 stdin)))) \<and>
      snd (Executor c s0 stdin) =
        map_option (Wrapped ''END: '')
          (snd (snd (snd (End (program c)
             (progState (processLines (program c) (scanned stdin) (fst (beginPhase c s0))))
             (awkCtx (processLines (program c) (scanned stdin) (fst (beginPhase c s0)))))))))"
  using End_once_phases [of c s0 stdin e] unfolding beginPhase_err .

theorem End_once_witness:
  "snd (Executor (Awk ErrorInBeginProgram noParameters) () \<lparr>scanned = [''line''], scanErr = None\<rparr>)
     = Some (Wrapped ''BEGIN: '' (New ''begin error'')) \<and>
   filter isEnd (calls (fst (Executor (Awk ErrorInBeginProgram noParameters) ()
      \<lparr>scanned = [''line''], scanErr = None\<rparr>))) = [] \<and>
   stdout (fst (Executor (Awk ErrorInBeginProgram noParameters) () \<lparr>scanned = [''line''], scanErr = None\<rparr>)) = [] \<and>
   snd (Executor simpleCommand () \<lparr>scanned = [''l1'', ''l2''], scanErr = Some (New ''read failed'')\<rparr>)
     = Some (New ''read failed'') \<and>
   filter isEnd (calls (fst (Executor simpleCommand ()
      \<lparr>scanned = [''l1'', ''l2''], scanErr = Some (New ''read failed'')\<rparr>))) = [] \<and>
   stdout (fst (Executor simpleCommand () \<lparr>scanned = [''l1'', ''l2''], scanErr = Some (New ''read failed'')\<rparr>))
     = ''l1'' @ [CHR 0x0A] @ ''l2'' @ [CHR 0x0A] \<and>
   snd (Executor (Awk ErrorInEndProgram noParameters) () \<lparr>scanned = [''line''], scanErr = None\<rparr>)
     = Some (Wrapped ''END: '' (New ''end error'')) \<and>
   length (filter isEnd (calls (fst (Executor (Awk ErrorInEndProgram noParameters) ()
      \<lparr>scanned = [''line''], scanErr = None\<rparr>)))) = 1 \<and>
   snd (Executor simpleCommand () \<lparr>scanned = [''l1''], scanErr = None\<rparr>) = None \<and>
   length (filter isEnd (calls (fst (Executor simpleCommand () \<lparr>scanned = [''l1''], scanErr = None\<rparr>)))) = 1"
  using End_once [where c = "Awk ErrorInBeginProgram noParameters" and ?s0.0 = "()"
      and stdin = "\<lparr>scanned = [''line''], scanErr = None\<rparr>" and e = "New ''begin error''"]
    End_once [where c = simpleCommand and ?s0.0 = "()"
      and stdin = "\<lparr>scanned = [''l1'', ''l2''], scanErr = Some (New ''read failed'')\<rparr>"
      and e = "New ''read failed''"]
    End_once [where c = "Awk ErrorInEndProgram noParameters" and ?s0.0 = "()"
      and stdin = "\<lparr>scanned = [''line''], scanErr = None\<rparr>" and e = "New ''end error''"]
    End_once [where c = simpleCommand and ?s0.0 = "()"
      and stdin = "\<lparr>scanned = [''l1''], scanErr = None\<rparr>" and e = "New ''none''"]
  by (simp add: engine_eval strings_eval ErrorInBeginProgram_def ErrorInEndProgram_def)

subsection \<open>The record number\<close>

lemma sint_of_nat_int64:
  assumes "n < 2 ^ 63"
  shows "sint (of_nat n :: 64 word) = int n"
proof -
  have "sint (of_nat n :: 64 word) = signed_take_bit 63 (int n)"
    using sint_sbintrunc' [where 'a = 64 and bin = "int n"] by simp
  moreover have "int n < 2 ^ 63"
    using assms by (metis of_nat_less_iff of_nat_numeral of_nat_power)
  then have "signed_take_bit 63 (int n) = int n"
    by (simp add: signed_take_bit_int_eq_self_iff)
  ultimately show ?thesis
    by simp
qed

lemma leavesNR_D:
  assumes "leavesNR p"
  shows "NR (fst (snd (Begin p s ctx))) = NR ctx" "NR (fst (snd (Condition p s ctx))) = NR ctx"
    "NR (fst (snd (Action p s ctx))) = NR ctx" "NR (fst (snd (End p s ctx))) = NR ctx"
  using assms by (simp_all add: leavesNR_def)

lemma loopBody_NR:
  assumes "leavesNR p"
  shows "NR (awkCtx (loopBody p line st)) = NR (awkCtx st) + 1 \<and>
    (\<forall>call \<in> set (drop (length (calls st)) (calls (loopBody p line st))). NR (seen call) = NR (awkCtx st) + 1) \<and>
    map (\<lambda>call. NR (seen call)) (filter isCondition (calls (loopBody p line st))) =
      map (\<lambda>call. NR (seen call)) (filter isCondition (calls st)) @ [NR (awkCtx st) + 1]"
proof (cases rule: loopBody_cases [of p st line])
  case (skip s1 ctx1)
  from leavesNR_D(2) [OF assms, of "progState st" "recordUpdate line (awkCtx st)"] skip(1)
  have "NR ctx1 = NR (awkCtx st) + 1"
    by (simp add: NR_recordUpdate)
  with skip(2) show ?thesis
    by (simp add: NR_recordUpdate)
next
  case (act s1 ctx1 s2 ctx2 out emit)
  from leavesNR_D(2) [OF assms, of "progState st" "recordUpdate line (awkCtx st)"] act(1)
  have c1: "NR ctx1 = NR (awkCtx st) + 1"
    by (simp add: NR_recordUpdate)
  from leavesNR_D(3) [OF assms, of s1 ctx1] act(2) have "NR ctx2 = NR ctx1"
    by simp
  with c1 act(3) show ?thesis
    by (simp add: NR_recordUpdate)
qed

lemma processLines_NR:
  assumes "leavesNR p"
  shows "NR (awkCtx (processLines p ls st)) = NR (awkCtx st) + of_nat (length ls) \<and>
    map (\<lambda>call. NR (seen call)) (filter isCondition (calls (processLines p ls st))) =
      map (\<lambda>call. NR (seen call)) (filter isCondition (calls st)) @
      map (\<lambda>k. NR (awkCtx st) + of_nat k) [1 ..< Suc (length ls)]"
proof (induction ls rule: rev_induct)
  case Nil
  then show ?case by simp
next
  case (snoc l ls)
  from loopBody_NR [OF assms, of l "processLines p ls st"] snoc
  show ?case
    by (simp add: processLines_snoc add.assoc)
qed

lemma Executor_NR:
  assumes "leavesNR (program c)" and "snd (beginPhase c s0) = None"
  shows "map (\<lambda>call. NR (seen call)) (filter isCondition (calls (fst (Executor c s0 stdin))))
           = map of_nat [1 ..< Suc (length (scanned stdin))]"
    and "NR (awkCtx (fst (Executor c s0 stdin))) = of_nat (length (scanned stdin))"
proof -
  let ?p = "program c"
  let ?b = "fst (beginPhase c s0)"
  let ?l = "processLines ?p (scanned stdin) ?b"
  have nr0: "NR (awkCtx ?b) = 0"
    using leavesNR_D(1) [OF assms(1), of s0 "initialContext c"]
    by (simp add: beginPhase_awkCtx initialContext_def)
  note loop = processLines_NR [OF assms(1), of "scanned stdin" ?b]
  have seen: "map (\<lambda>call. NR (seen call)) (filter isCondition (calls ?l))
      = map of_nat [1 ..< Suc (length (scanned stdin))]"
    using loop nr0 by (simp add: beginPhase_calls)
  have final: "NR (awkCtx ?l) = of_nat (length (scanned stdin))"
    using loop nr0 by simp
  show "map (\<lambda>call. NR (seen call)) (filter isCondition (calls (fst (Executor c s0 stdin))))
           = map of_nat [1 ..< Suc (length (scanned stdin))]"
  proof (cases "scanErr stdin")
    case (Some e)
    with assms(2) seen show ?thesis by (simp add: Executor_read_error)
  next
    case None
    with assms(2) seen show ?thesis by (simp add: Executor_to_End endPhase_calls)
  qed
  show "NR (awkCtx (fst (Executor c s0 stdin))) = of_nat (length (scanned stdin))"
  proof (cases "scanErr stdin")
    case (Some e)
    with assms(2) final show ?thesis by (simp add: Executor_read_error)
  next
    case None
    have "NR (awkCtx (fst (endPhase ?p ?l))) = NR (awkCtx ?l)"
      using leavesNR_D(4) [OF assms(1), of "progState ?l" "awkCtx ?l"]
      by (simp add: endPhase_awkCtx)
    with None assms(2) final show ?thesis by (simp add: Executor_to_End)
  qed
qed

lemma processLines_first_call:
  "calls st \<noteq> [] \<Longrightarrow>
   calls (processLines p ls st) \<noteq> [] \<and> hd (calls (processLines p ls st)) = hd (calls st)"
proof (induction ls arbitrary: st)
  case Nil
  then show ?case by simp
next
  case (Cons l ls)
  have "calls (loopBody p l st) \<noteq> [] \<and> hd (calls (loopBody p l st)) = hd (calls st)"
    using Cons.prems by (cases rule: loopBody_cases [of p st l]) simp_all
  with Cons.IH [of "loopBody p l st"] show ?case by simp
qed

lemma Executor_first_call:
  "calls (fst (Executor c s0 stdin)) \<noteq> [] \<and>
   isBegin (hd (calls (fst (Executor c s0 stdin)))) \<and>
   seen (hd (calls (fst (Executor c s0 stdin)))) = initialContext c"
proof -
  have b: "calls (fst (beginPhase c s0)) \<noteq> []"
    by (simp add: beginPhase_calls)
  note loop = processLines_first_call [OF b, of "program c" "scanned stdin"]
  show ?thesis
  proof (cases "snd (beginPhase c s0)")
    case (Some e)
    then show ?thesis by (simp add: Executor_Begin_error beginPhase_calls)
  next
    case None
    show ?thesis
    proof (cases "scanErr stdin")
      case (Some e)
      with None loop show ?thesis
        by (simp add: Executor_read_error beginPhase_calls)
    next
      case noerr: None
      with None loop show ?thesis
        by (simp add: Executor_to_End endPhase_calls beginPhase_calls)
    qed
  qed
qed

text \<open>
  Claim C7, as amended. The context given to \<open>Begin\<close> has \<open>NR = 0\<close>, and the update for
  each line adds exactly 1 to \<open>NR\<close> before the filter and the action of that line are
  invoked. When no hook assigns \<open>NR\<close>, the filter of the \<open>k\<close>-th record sees \<open>NR = k\<close>,
  every hook invoked for a record sees the number the update has set, and after \<open>n\<close>
  records \<open>NR\<close> is \<open>n\<close> (as a 64-bit integer; its signed value is \<open>n\<close> for
  \<open>n < 2^63\<close>).
\<close>

theorem record_number:
  "NR (initialContext c) = 0 \<and>
   calls (fst (Executor c s0 stdin)) \<noteq> [] \<and>
   isBegin (hd (calls (fst (Executor c s0 stdin)))) \<and>
   NR (seen (hd (calls (fst (Executor c s0 stdin))))) = 0 \<and>
   NR (recordUpdate line ctx) = NR ctx + 1 \<and>
   (leavesNR (program c) \<and> snd (snd (Begin (program c) s0 (initialContext c))) = None \<longrightarrow>
      map NR (seenBy isCondition (calls (fst (Executor c s0 stdin))))
        = map of_nat [1 ..< Suc (length (scanned stdin))] \<and>
      NR (awkCtx (fst (Executor c s0 stdin))) = of_nat (length (scanned stdin)) \<and>
      (length (scanned stdin) < 2 ^ 63 \<longrightarrow>
         sint (NR (awkCtx (fst (Executor c s0 stdin)))) = int (length (scanned stdin)))) \<and>
   (leavesNR p \<longrightarrow>
      (\<forall>call \<in> set (drop (length (calls st)) (calls (loopBody p line st))).
         NR (seen call) = NR (awkCtx st) + 1) \<and>
      NR (awkCtx (loopBody p line st)) = NR (awkCtx st) + 1)"
proof (intro conjI impI)
  show init: "NR (initialContext c) = 0"
    by (simp add: initialContext_def)
  show "calls (fst (Executor c s0 stdin)) \<noteq> []"
    by (simp add: Executor_first_call)
  show "isBegin (hd (calls (fst (Executor c s0 stdin))))"
    by (simp add: Executor_first_call)
  show "NR (seen (hd (calls (fst (Executor c s0 stdin))))) = 0"
    by (simp add: Executor_first_call init)
  show "NR (recordUpdate line ctx) = NR ctx + 1"
    by (rule NR_recordUpdate)
next
  assume "leavesNR (program c) \<and> snd (snd (Begin (program c) s0 (initialContext c))) = None"
  then have a: "leavesNR (program c)" "snd (beginPhase c s0) = None"
    by (simp_all add: beginPhase_err)
  from Executor_NR(1) [OF a]
  show "map NR (seenBy isCondition (calls (fst (Executor c s0 stdin))))
        = map of_nat [1 ..< Suc (length (scanned stdin))]"
    by (simp add: seenBy_def comp_def)
  from a show final: "NR (awkCtx (fst (Executor c s0 stdin))) = of_nat (length (scanned stdin))"
    by (simp add: Executor_NR)
  assume "length (scanned stdin) < 2 ^ 63"
  then show "sint (NR (awkCtx (fst (Executor c s0 stdin)))) = int (length (scanned stdin))"
    by (simp add: final sint_of_nat_int64)
next
  assume "leavesNR p"
  then show "\<forall>call \<in> set (drop (length (calls st)) (calls (loopBody p line st))).
         NR (seen call) = NR (awkCtx st) + 1"
    and "NR (awkCtx (loopBody p line st)) = NR (awkCtx st) + 1"
    using loopBody_NR [of p line st] by simp_all
qed

theorem record_number_witness:
  "map NR (seenBy isCondition (calls (fst (Executor simpleCommand ()
      \<lparr>scanned = [''a'', ''b'', ''c''], scanErr = None\<rparr>)))) = [1, 2, 3] \<and>
   NR (awkCtx (fst (Executor simpleCommand () \<lparr>scanned = [''a'', ''b'', ''c''], scanErr = None\<rparr>))) = 3 \<and>
   sint (NR (awkCtx (fst (Executor simpleCommand () \<lparr>scanned = [''a'', ''b'', ''c''], scanErr = None\<rparr>)))) = 3 \<and>
   NR (awkCtx (loopBody SimpleProgram ''a'' (fst (beginPhase simpleCommand ())))) = 1"
  using record_number [where c = simpleCommand and ?s0.0 = "()"
      and stdin = "\<lparr>scanned = [''a'', ''b'', ''c''], scanErr = None\<rparr>"
      and p = "SimpleProgram :: (unit, unit) Program" and st = "fst (beginPhase simpleCommand ())"
      and line = "''a''" and ctx = "initialContext simpleCommand"]
    leavesNR_SimpleProgram [where 'a = unit and 'b = unit]
  by (simp add: engine_eval strings_eval upt_rec)

text \<open>
  The claim as first stated fails when a hook assigns the record number: with \<open>ctx.NR = 5\<close>
  in \<open>Begin\<close>, the two records are seen with the numbers 6 and 7, and \<open>NR\<close> is 7 after
  two records.
\<close>

theorem record_number_counterexample:
  "map NR (seenBy isCondition (calls (fst (Executor
      (Awk example_Begin_assigns_NR \<lparr>FieldSeparator = [], OutputFieldSeparator = [], flags_Variables = None\<rparr>)
      () \<lparr>scanned = [''a'', ''b''], scanErr = None\<rparr>)))) = [6, 7] \<and>
   NR (awkCtx (fst (Executor
      (Awk example_Begin_assigns_NR \<lparr>FieldSeparator = [], OutputFieldSeparator = [], flags_Variables = None\<rparr>)
      () \<lparr>scanned = [''a'', ''b''], scanErr = None\<rparr>))) = 7"
  by (simp add: engine_eval strings_eval example_Begin_assigns_NR_def)

subsection \<open>The fields a hook observes\<close>

lemma recordUpdate_split:
  "spec_record_split (recordUpdate line ctx) \<and> spec_fields_invariant (recordUpdate line ctx)"
  by (simp add: spec_record_split_def spec_fields_invariant_def Fields_recordUpdate NF_recordUpdate
      recordUpdate_frame)

lemma loopBody_Condition_seen:
  assumes "\<forall>call \<in> set (calls st). isCondition call \<longrightarrow>
             spec_record_split (seen call) \<and> spec_fields_invariant (seen call)"
  shows "\<forall>call \<in> set (calls (loopBody p line st)). isCondition call \<longrightarrow>
             spec_record_split (seen call) \<and> spec_fields_invariant (seen call)"
  using assms
  by (cases rule: loopBody_cases [of p st line]) (auto simp: recordUpdate_split)

lemma processLines_Condition_seen:
  assumes "\<forall>call \<in> set (calls st). isCondition call \<longrightarrow>
             spec_record_split (seen call) \<and> spec_fields_invariant (seen call)"
  shows "\<forall>call \<in> set (calls (processLines p ls st)). isCondition call \<longrightarrow>
             spec_record_split (seen call) \<and> spec_fields_invariant (seen call)"
  using assms
proof (induction ls arbitrary: st)
  case Nil
  then show ?case by simp
next
  case (Cons l ls)
  from Cons.IH [OF loopBody_Condition_seen [OF Cons.prems, of p l]] show ?case
    by simp
qed

lemma Executor_Condition_seen:
  "\<forall>call \<in> set (calls (fst (Executor c s0 stdin))). isCondition call \<longrightarrow>
      spec_record_split (seen call) \<and> spec_fields_invariant (seen call)"
proof -
  have b: "\<forall>call \<in> set (calls (fst (beginPhase c s0))). isCondition call \<longrightarrow>
      spec_record_split (seen call) \<and> spec_fields_invariant (seen call)"
    by (simp add: beginPhase_calls)
  note loop = processLines_Condition_seen [OF b, of "program c" "scanned stdin"]
  show ?thesis
  proof (cases "snd (beginPhase c s0)")
    case (Some e)
    with b show ?thesis by (simp add: Executor_Begin_error)
  next
    case None
    show ?thesis
    proof (cases "scanErr stdin")
      case (Some e)
      with None loop show ?thesis by (simp add: Executor_read_error)
    next
      case noerr: None
      with None loop show ?thesis by (simp add: Executor_to_End endPhase_calls)
    qed
  qed
qed

lemma loopBody_new_calls:
  "drop (length (calls st)) (calls (loopBody p line st)) \<noteq> [] \<and>
   isCondition (hd (drop (length (calls st)) (calls (loopBody p line st)))) \<and>
   seen (hd (drop (length (calls st)) (calls (loopBody p line st)))) = recordUpdate line (awkCtx st) \<and>
   (\<forall>call \<in> set (tl (drop (length (calls st)) (calls (loopBody p line st)))).
      isAction call \<and> seen call = returned (hd (drop (length (calls st)) (calls (loopBody p line st)))))"
  by (cases rule: loopBody_cases [of p st line]) simp_all

text \<open>
  Claim C4, as amended. After the update for a line, in both separator modes, \<open>Fields\<close>
  is the line followed by its tokens and \<open>NF\<close> is the number of tokens, so
  \<open>len(Fields) = NF + 1\<close>; every invocation of the filter in a run is given a context in
  that state. The action of a record is given the context exactly as the filter of that
  record returned it: the fields and the count are those of the update when the filter has
  left \<open>Fields\<close> and \<open>NF\<close> as it found them, and \<open>len(Fields) = NF + 1\<close> is kept by every
  call of \<open>SetField\<close>.
\<close>

theorem fields_after_update:
  "Fields (recordUpdate line ctx) = line # splitFields (FS ctx) line \<and>
   NF (recordUpdate line ctx) = int (length (splitFields (FS ctx) line)) \<and>
   int (length (Fields (recordUpdate line ctx))) = NF (recordUpdate line ctx) + 1 \<and>
   (\<forall>call \<in> set (calls (fst (Executor c s0 stdin))). isCondition call \<longrightarrow>
      spec_record_split (seen call) \<and> spec_fields_invariant (seen call)) \<and>
   drop (length (calls st)) (calls (loopBody p line st)) \<noteq> [] \<and>
   isCondition (hd (drop (length (calls st)) (calls (loopBody p line st)))) \<and>
   seen (hd (drop (length (calls st)) (calls (loopBody p line st)))) = recordUpdate line (awkCtx st) \<and>
   (\<forall>call \<in> set (tl (drop (length (calls st)) (calls (loopBody p line st)))).
      isAction call \<and>
      seen call = returned (hd (drop (length (calls st)) (calls (loopBody p line st)))) \<and>
      (Fields (seen call) = Fields (recordUpdate line (awkCtx st)) \<and>
       NF (seen call) = NF (recordUpdate line (awkCtx st)) \<longrightarrow>
         spec_fields_invariant (seen call) \<and>
         Fields (seen call) = line # splitFields (FS (awkCtx st)) line)) \<and>
   (spec_fields_invariant before \<and> Context_SetField before i v = Inr after \<longrightarrow>
      spec_fields_invariant after)"
proof (intro conjI)
  show "Fields (recordUpdate line ctx) = line # splitFields (FS ctx) line"
    by (rule Fields_recordUpdate)
  show "NF (recordUpdate line ctx) = int (length (splitFields (FS ctx) line))"
    by (rule NF_recordUpdate)
  show "int (length (Fields (recordUpdate line ctx))) = NF (recordUpdate line ctx) + 1"
    by (simp add: Fields_recordUpdate NF_recordUpdate)
  show "\<forall>call \<in> set (calls (fst (Executor c s0 stdin))). isCondition call \<longrightarrow>
      spec_record_split (seen call) \<and> spec_fields_invariant (seen call)"
    by (rule Executor_Condition_seen)
  show "drop (length (calls st)) (calls (loopBody p line st)) \<noteq> []"
    and "isCondition (hd (drop (length (calls st)) (calls (loopBody p line st))))"
    and "seen (hd (drop (length (calls st)) (calls (loopBody p line st)))) = recordUpdate line (awkCtx st)"
    using loopBody_new_calls [of st p line] by blast+
  show "\<forall>call \<in> set (tl (drop (length (calls st)) (calls (loopBody p line st)))).
      isAction call \<and>
      seen call = returned (hd (drop (length (calls st)) (calls (loopBody p line st)))) \<and>
      (Fields (seen call) = Fields (recordUpdate line (awkCtx st)) \<and>
       NF (seen call) = NF (recordUpdate line (awkCtx st)) \<longrightarrow>
         spec_fields_invariant (seen call) \<and>
         Fields (seen call) = line # splitFields (FS (awkCtx st)) line)"
    using loopBody_new_calls [of st p line]
    by (auto simp: spec_fields_invariant_def Fields_recordUpdate NF_recordUpdate)
  show "spec_fields_invariant before \<and> Context_SetField before i v = Inr after \<longrightarrow>
      spec_fields_invariant after"
    by (auto simp: Context_SetField_def slice_set_def spec_fields_invariant_def Let_def
        split: if_splits)
qed

theorem fields_after_update_witness:
  "Fields (recordUpdate ''a b'' (initialContext simpleCommand)) = [''a b'', ''a'', ''b''] \<and>
   NF (recordUpdate ''a b'' (initialContext simpleCommand)) = 2 \<and>
   map spec_fields_invariant (seenBy isCondition (calls (fst (Executor simpleCommand ()
      \<lparr>scanned = [''a b'', []], scanErr = None\<rparr>)))) = [True, True] \<and>
   map spec_record_split (seenBy isCondition (calls (fst (Executor simpleCommand ()
      \<lparr>scanned = [''a b'', []], scanErr = None\<rparr>)))) = [True, True] \<and>
   map Fields (seenBy isAction (calls (loopBody SimpleProgram ''a b'' (fst (beginPhase simpleCommand ())))))
     = [[''a b'', ''a'', ''b'']] \<and>
   map spec_fields_invariant
     (seenBy isAction (calls (loopBody SimpleProgram ''a b'' (fst (beginPhase simpleCommand ()))))) = [True] \<and>
   spec_fields_invariant ((recordUpdate ''a b'' (initialContext simpleCommand))
     \<lparr>Fields := [''a b'', ''a'', ''b'', [], ''x''], NF := 4\<rparr>)"
  using fields_after_update [where c = simpleCommand and ?s0.0 = "()"
      and stdin = "\<lparr>scanned = [''a b'', []], scanErr = None\<rparr>"
      and p = "SimpleProgram :: (unit, unit) Program" and st = "fst (beginPhase simpleCommand ())"
      and line = "''a b''" and ctx = "initialContext simpleCommand"
      and before = "recordUpdate ''a b'' (initialContext simpleCommand)" and i = 4 and v = "''x''"
      and after = "(recordUpdate ''a b'' (initialContext simpleCommand))
          \<lparr>Fields := [''a b'', ''a'', ''b'', [], ''x''], NF := 4\<rparr>"]
  by (simp add: engine_eval strings_eval spec_eval)

text \<open>
  The claim as first stated fails for the action hook: a filter that assigns \<open>ctx.NF = 7\<close>
  on the record \<open>a b\<close> hands the action three elements of \<open>Fields\<close> with \<open>NF = 7\<close>.
\<close>

theorem fields_after_update_counterexample:
  "map spec_fields_invariant (seenBy isAction (calls (fst (Executor
      (Awk example_Condition_assigns_NF \<lparr>FieldSeparator = [], OutputFieldSeparator = [], flags_Variables = None\<rparr>)
      () \<lparr>scanned = [''a b''], scanErr = None\<rparr>)))) = [False] \<and>
   map Fields (seenBy isAction (calls (fst (Executor
      (Awk example_Condition_assigns_NF \<lparr>FieldSeparator = [], OutputFieldSeparator = [], flags_Variables = None\<rparr>)
      () \<lparr>scanned = [''a b''], scanErr = None\<rparr>)))) = [[''a b'', ''a'', ''b'']] \<and>
   map NF (seenBy isAction (calls (fst (Executor
      (Awk example_Condition_assigns_NF \<lparr>FieldSeparator = [], OutputFieldSeparator = [], flags_Variables = None\<rparr>)
      () \<lparr>scanned = [''a b''], scanErr = None\<rparr>)))) = [7]"
  by (simp add: engine_eval strings_eval example_Condition_assigns_NF_def)

subsection \<open>One context for the whole run\<close>

lemma threaded_append:
  "spec_threaded ctx lines (cs @ cs') =
     (spec_threaded ctx lines cs \<and>
      spec_threaded (if cs = [] then ctx else returned (last cs))
        (drop (length (filter isCondition cs)) lines) cs')"
proof (induction ctx lines cs rule: spec_threaded.induct)
  case (2 ctx lines given ctx' ok rest)
  then show ?case
    by (cases lines) auto
qed auto

lemma threaded_more_lines:
  "spec_threaded ctx lines cs \<Longrightarrow> spec_threaded ctx (lines @ extra) cs"
proof (induction ctx lines cs rule: spec_threaded.induct)
  case (2 ctx lines given ctx' ok rest)
  then show ?case by (cases lines) auto
qed auto

lemma loopBody_threaded:
  assumes "run_threaded ctx0 lines st"
  shows "run_threaded ctx0 (lines @ [line]) (loopBody p line st)"
proof -
  from assms have inv: "calls st \<noteq> []" "returned (last (calls st)) = awkCtx st"
    "length (filter isCondition (calls st)) = length lines" "spec_threaded ctx0 lines (calls st)"
    by (simp_all add: run_threaded_def)
  from inv(4) have ext: "spec_threaded ctx0 (lines @ [line]) (calls st)"
    by (rule threaded_more_lines)
  show ?thesis
  proof (cases rule: loopBody_cases [of p st line])
    case (skip s1 ctx1)
    with inv ext show ?thesis
      by (simp add: run_threaded_def threaded_append)
  next
    case (act s1 ctx1 s2 ctx2 out emit)
    with inv ext show ?thesis
      by (simp add: run_threaded_def threaded_append)
  qed
qed

lemma processLines_threaded:
  assumes "run_threaded ctx0 lines st"
  shows "run_threaded ctx0 (lines @ ls) (processLines p ls st)"
  using assms
proof (induction ls arbitrary: lines st)
  case Nil
  then show ?case by simp
next
  case (Cons l ls)
  from Cons.IH [OF loopBody_threaded [OF Cons.prems, of l p]] show ?case
    by simp
qed

lemma beginPhase_threaded: "run_threaded (initialContext c) [] (fst (beginPhase c s0))"
  by (simp add: run_threaded_def beginPhase_calls beginPhase_awkCtx)

lemma loop_threaded:
  "run_threaded (initialContext c) ls (processLines (program c) ls (fst (beginPhase c s0)))"
  using processLines_threaded [OF beginPhase_threaded, where ls = ls and p = "program c"] by simp

lemma Executor_threaded:
  "spec_threaded (initialContext c) (scanned stdin) (calls (fst (Executor c s0 stdin)))"
proof (cases "snd (beginPhase c s0)")
  case (Some e)
  then show ?thesis
    by (simp add: Executor_Begin_error beginPhase_calls)
next
  case None
  note loop = loop_threaded [of c "scanned stdin" s0]
  show ?thesis
  proof (cases "scanErr stdin")
    case (Some e)
    with None loop show ?thesis
      by (simp add: Executor_read_error run_threaded_def)
  next
    case noerr: None
    with None loop show ?thesis
      by (simp add: Executor_to_End endPhase_calls run_threaded_def threaded_append)
  qed
qed

lemma leavesFields_D:
  assumes "leavesFields p"
  shows "Fields (fst (snd (Condition p s ctx))) = Fields ctx" "NF (fst (snd (Condition p s ctx))) = NF ctx"
    "Fields (fst (snd (Action p s ctx))) = Fields ctx" "NF (fst (snd (Action p s ctx))) = NF ctx"
  using assms by (simp_all add: leavesFields_def)

lemma loopBody_leavesFields:
  assumes "leavesFields p"
  shows "Fields (awkCtx (loopBody p line st)) = line # splitFields (FS (awkCtx st)) line \<and>
         NF (awkCtx (loopBody p line st)) = int (length (splitFields (FS (awkCtx st)) line))"
proof (cases rule: loopBody_cases [of p st line])
  case (skip s1 ctx1)
  from leavesFields_D(1,2) [OF assms, of "progState st" "recordUpdate line (awkCtx st)"] skip
  show ?thesis
    by (simp add: Fields_recordUpdate NF_recordUpdate)
next
  case (act s1 ctx1 s2 ctx2 out emit)
  from leavesFields_D(1,2) [OF assms, of "progState st" "recordUpdate line (awkCtx st)"] act(1)
  have "Fields ctx1 = line # splitFields (FS (awkCtx st)) line"
    and "NF ctx1 = int (length (splitFields (FS (awkCtx st)) line))"
    by (simp_all add: Fields_recordUpdate NF_recordUpdate)
  with leavesFields_D(3,4) [OF assms, of s1 ctx1] act(2,3) show ?thesis
    by simp
qed

lemma Variables_initialContext:
  "Variables (initialContext c) =
     Some (case flags_Variables (Flags c) of None \<Rightarrow> Map.empty | Some m \<Rightarrow> m)"
  by (simp add: initialContext_def)

text \<open>
  Claim C10, as amended. One context is threaded through the run: every hook is given the
  context as the hook before it returned it, but for the update of the engine before each
  filter. The context starts with \<open>NR = 0\<close>, no fields, \<open>NF = 0\<close> and the variables of the
  flags. When \<open>Begin\<close> and the input
  raise no error, the last invocation is that of \<open>End\<close>, given the context as the
  invocation before it returned it: after the last line \<open>l\<close> the context the hooks of \<open>l\<close>
  left (with the fields of \<open>l\<close> when filter and action leave \<open>Fields\<close> and \<open>NF\<close> alone),
  after no line at all the context as \<open>Begin\<close> returned it, and \<open>NR\<close> is the number of
  lines when no hook assigns it.
\<close>

theorem End_sees_final_context:
  "spec_threaded (initialContext c) (scanned stdin) (calls (fst (Executor c s0 stdin))) \<and>
   Variables (initialContext c) =
     Some (case flags_Variables (Flags c) of None \<Rightarrow> Map.empty | Some m \<Rightarrow> m) \<and>
   NR (initialContext c) = 0 \<and> Fields (initialContext c) = [] \<and> NF (initialContext c) = 0 \<and>
   (snd (snd (Begin (program c) s0 (initialContext c))) = None \<and> scanErr stdin = None \<longrightarrow>
      butlast (calls (fst (Executor c s0 stdin))) \<noteq> [] \<and>
      isEnd (last (calls (fst (Executor c s0 stdin)))) \<and>
      seen (last (calls (fst (Executor c s0 stdin)))) =
        awkCtx (processLines (program c) (scanned stdin) (fst (beginPhase c s0))) \<and>
      seen (last (calls (fst (Executor c s0 stdin)))) =
        returned (last (butlast (calls (fst (Executor c s0 stdin))))) \<and>
      (scanned stdin = [] \<longrightarrow>
         seen (last (calls (fst (Executor c s0 stdin)))) =
           fst (snd (Begin (program c) s0 (initialContext c)))) \<and>
      (scanned stdin = ls @ [l] \<longrightarrow>
         seen (last (calls (fst (Executor c s0 stdin)))) =
           awkCtx (loopBody (program c) l (processLines (program c) ls (fst (beginPhase c s0))))) \<and>
      (scanned stdin = ls @ [l] \<and> leavesFields (program c) \<longrightarrow>
         Fields (seen (last (calls (fst (Executor c s0 stdin))))) =
           l # splitFields (FS (awkCtx (processLines (program c) ls (fst (beginPhase c s0))))) l \<and>
         NF (seen (last (calls (fst (Executor c s0 stdin))))) =
           int (length (splitFields (FS (awkCtx (processLines (program c) ls (fst (beginPhase c s0))))) l))) \<and>
      (leavesNR (program c) \<longrightarrow>
         NR (seen (last (calls (fst (Executor c s0 stdin))))) = of_nat (length (scanned stdin))))"
proof (intro conjI impI)
  show "spec_threaded (initialContext c) (scanned stdin) (calls (fst (Executor c s0 stdin)))"
    by (rule Executor_threaded)
  show "Variables (initialContext c) =
     Some (case flags_Variables (Flags c) of None \<Rightarrow> Map.empty | Some m \<Rightarrow> m)"
    by (rule Variables_initialContext)
  show "NR (initialContext c) = 0" and "Fields (initialContext c) = []" and "NF (initialContext c) = 0"
    by (simp_all add: initialContext_def)
next
  let ?p = "program c"
  let ?b = "fst (beginPhase c s0)"
  let ?run = "fst (Executor c s0 stdin)"
  assume "snd (snd (Begin (program c) s0 (initialContext c))) = None \<and> scanErr stdin = None"
  then have ok: "snd (beginPhase c s0) = None \<and> scanErr stdin = None"
    by (simp add: beginPhase_err)
  then have run: "calls ?run = calls (processLines ?p (scanned stdin) ?b) @
      [EndCall (awkCtx (processLines ?p (scanned stdin) ?b))
         (fst (snd (End ?p (progState (processLines ?p (scanned stdin) ?b))
            (awkCtx (processLines ?p (scanned stdin) ?b)))))
         (fst (snd (snd (End ?p (progState (processLines ?p (scanned stdin) ?b))
            (awkCtx (processLines ?p (scanned stdin) ?b))))))
         (snd (snd (snd (End ?p (progState (processLines ?p (scanned stdin) ?b))
            (awkCtx (processLines ?p (scanned stdin) ?b))))))]"
    by (simp add: Executor_to_End endPhase_calls)
  show "butlast (calls ?run) \<noteq> []"
    using loop_threaded [of c "scanned stdin" s0]
    by (simp add: run run_threaded_def)
  show "isEnd (last (calls ?run))"
    by (simp add: run)
  show seen_End: "seen (last (calls ?run)) = awkCtx (processLines ?p (scanned stdin) ?b)"
    by (simp add: run)
  show "seen (last (calls ?run)) = returned (last (butlast (calls ?run)))"
    using loop_threaded [of c "scanned stdin" s0]
    by (simp add: run run_threaded_def)
  show "seen (last (calls ?run)) = fst (snd (Begin ?p s0 (initialContext c)))"
    if "scanned stdin = []"
    using that by (simp add: seen_End beginPhase_awkCtx)
  show "seen (last (calls ?run)) = awkCtx (loopBody ?p l (processLines ?p ls ?b))"
    if "scanned stdin = ls @ [l]"
    using that by (simp add: seen_End processLines_snoc)
  show "Fields (seen (last (calls ?run))) = l # splitFields (FS (awkCtx (processLines ?p ls ?b))) l"
    and "NF (seen (last (calls ?run))) = int (length (splitFields (FS (awkCtx (processLines ?p ls ?b))) l))"
    if "scanned stdin = ls @ [l] \<and> leavesFields ?p"
    using that loopBody_leavesFields [of ?p l "processLines ?p ls ?b"]
    by (simp_all add: seen_End processLines_snoc)
  show "NR (seen (last (calls ?run))) = of_nat (length (scanned stdin))"
    if "leavesNR ?p"
  proof -
    have "NR (awkCtx ?b) = 0"
      using leavesNR_D(1) [OF that, of s0 "initialContext c"]
      by (simp add: beginPhase_awkCtx initialContext_def)
    with processLines_NR [OF that, of "scanned stdin" ?b] show ?thesis
      by (simp add: seen_End)
  qed
qed

theorem End_sees_final_context_witness:
  "map Fields (seenBy isEnd (calls (fst (Executor simpleCommand ()
      \<lparr>scanned = [''a b'', ''c''], scanErr = None\<rparr>)))) = [[''c'', ''c'']] \<and>
   map NF (seenBy isEnd (calls (fst (Executor simpleCommand ()
      \<lparr>scanned = [''a b'', ''c''], scanErr = None\<rparr>)))) = [1] \<and>
   map NR (seenBy isEnd (calls (fst (Executor simpleCommand ()
      \<lparr>scanned = [''a b'', ''c''], scanErr = None\<rparr>)))) = [2] \<and>
   seenBy isEnd (calls (fst (Executor simpleCommand () \<lparr>scanned = [], scanErr = None\<rparr>)))
     = [initialContext simpleCommand] \<and>
   spec_threaded (initialContext simpleCommand) [''a b'', ''c'']
     (calls (fst (Executor simpleCommand () \<lparr>scanned = [''a b'', ''c''], scanErr = None\<rparr>)))"
  using End_sees_final_context [where c = simpleCommand and ?s0.0 = "()"
      and stdin = "\<lparr>scanned = [''a b'', ''c''], scanErr = None\<rparr>" and ls = "[''a b'']" and l = "''c''"]
    End_sees_final_context [where c = simpleCommand and ?s0.0 = "()"
      and stdin = "\<lparr>scanned = [], scanErr = None\<rparr>" and ls = "[]" and l = "[]"]
    leavesNR_SimpleProgram [where 'a = unit and 'b = unit]
    leavesFields_SimpleProgram [where 'a = unit and 'b = unit]
  by (simp add: engine_eval strings_eval)

text \<open>
  The claim as first stated fails after zero records: a \<open>Begin\<close> that calls
  \<open>ctx.SetField(1, "x")\<close> leaves two elements in \<open>Fields\<close> and \<open>NF = 1\<close> for \<open>End\<close>.
\<close>

theorem End_sees_final_context_counterexample:
  "map Fields (seenBy isEnd (calls (fst (Executor
      (Awk example_Begin_sets_field \<lparr>FieldSeparator = [], OutputFieldSeparator = [], flags_Variables = None\<rparr>)
      () \<lparr>scanned = [], scanErr = None\<rparr>)))) = [[[], ''x'']] \<and>
   map NF (seenBy isEnd (calls (fst (Executor
      (Awk example_Begin_sets_field \<lparr>FieldSeparator = [], OutputFieldSeparator = [], flags_Variables = None\<rparr>)
      () \<lparr>scanned = [], scanErr = None\<rparr>)))) = [1]"
  by (simp add: engine_eval strings_eval example_Begin_sets_field_def)

end
